theory Spec2Isabelle
  imports Main "HOL-Library.Sublist"
begin

section \<open>std::string operations used by MessageQueue.cpp\<close>

text \<open>
  A payload is a \<open>std::vector<char>\<close>; the queue code copies it into a \<open>std::string\<close>
  of the same bytes before looking at it. Both are modelled as \<open>string\<close> (a list of
  bytes), and the queue (a \<open>std::deque\<close> of payloads) as a list with the front at
  the head. An empty payload is read as the empty string (\<open>BasicTileQueue::put_impl\<close>
  takes the address of its first element for a copy of no bytes).
\<close>

type_synonym Payload = string

text \<open>
  The three-way comparison of two character sequences, as \<open>char_traits::compare\<close>
  followed by the comparison of the lengths: negative, zero or positive.
\<close>

fun compare3 :: "string \<Rightarrow> string \<Rightarrow> int" where
  "compare3 [] [] = 0"
| "compare3 [] (y # ys) = - 1"
| "compare3 (x # xs) [] = 1"
| "compare3 (x # xs) (y # ys) =
     (if x = y then compare3 xs ys
      else if (of_char x :: nat) < of_char y then - 1 else 1)"

text \<open>
  \<open>s.compare(pos, len, lit)\<close> compares the substring of \<open>s\<close> that starts at \<open>pos\<close> and
  has at most \<open>len\<close> characters with \<open>lit\<close>. It throws \<open>out_of_range\<close> when \<open>pos\<close> is
  beyond the size of \<open>s\<close>; every call of the source has \<open>pos = 0\<close>.
\<close>

definition str_compare :: "string \<Rightarrow> nat \<Rightarrow> nat \<Rightarrow> string \<Rightarrow> int" where
  "str_compare s pos len lit = compare3 (take len (drop pos s)) lit"

text \<open>
  \<open>s.find(pat)\<close>: the least position at which \<open>pat\<close> occurs in \<open>s\<close>, \<open>None\<close> for
  \<open>std::string::npos\<close>.
\<close>

fun str_find :: "string \<Rightarrow> string \<Rightarrow> nat option" where
  "str_find [] pat = (if pat = [] then Some 0 else None)"
| "str_find (c # cs) pat =
     (if take (length pat) (c # cs) = pat then Some 0
      else map_option Suc (str_find cs pat))"

text \<open>\<open>s.substr(0, n)\<close>, where \<open>n\<close> may be \<open>npos\<close>: the whole string then.\<close>

definition substr0 :: "string \<Rightarrow> nat option \<Rightarrow> string" where
  "substr0 s n = (case n of None \<Rightarrow> s | Some k \<Rightarrow> take k s)"

text \<open>
  The expression \<open>msg.substr(0, msg.find(" ver"))\<close>, which \<open>TileQueue::put_impl\<close>
  computes for the new payload (\<open>newMsg\<close>) and for every queued one (\<open>oldMsg\<close>).
\<close>

definition dedupKey :: "string \<Rightarrow> string" where
  "dedupKey msg = substr0 msg (str_find msg '' ver'')"

section \<open>MessageQueue\<close>

text \<open>\<open>MessageQueue::put_impl\<close>: \<open>_queue.push_back(value)\<close>.\<close>

definition MessageQueue_put_impl :: "Payload list \<Rightarrow> Payload \<Rightarrow> Payload list" where
  "MessageQueue_put_impl queue v = queue @ [v]"

text \<open>\<open>MessageQueue::wait_impl\<close>: the condition \<open>get\<close> waits for.\<close>

definition wait_impl :: "Payload list \<Rightarrow> bool" where
  "wait_impl queue = (length queue > 0)"

text \<open>
  \<open>MessageQueue::get\<close> blocks until \<open>wait_impl\<close> holds and then runs \<open>get_impl\<close>, which
  returns the front and pops it. On an empty queue \<open>get\<close> does not return: \<open>None\<close>.
\<close>

definition get :: "Payload list \<Rightarrow> (Payload \<times> Payload list) option" where
  "get queue = (if wait_impl queue then Some (hd queue, tl queue) else None)"

section \<open>BasicTileQueue\<close>

text \<open>The predicate of the \<open>canceltiles\<close> purge (the lambda passed to \<open>std::remove_if\<close>).\<close>

definition cancelled :: "Payload \<Rightarrow> bool" where
  "cancelled v = (str_compare v 0 5 ''tile '' = 0 \<and> str_find v ''id='' = None)"

text \<open>
  \<open>BasicTileQueue::put_impl\<close>. The erase-remove idiom removes the entries that satisfy
  the predicate and keeps the others in their order.
\<close>

definition BasicTileQueue_put_impl :: "Payload list \<Rightarrow> Payload \<Rightarrow> Payload list" where
  "BasicTileQueue_put_impl queue v =
     (if v = ''canceltiles''
      then v # filter (\<lambda>e. \<not> cancelled e) queue
      else MessageQueue_put_impl queue v)"

section \<open>TileQueue\<close>

text \<open>
  \<open>TileDesc::parse\<close> and \<open>TileDesc::intersectsWithRect\<close> are declared in TileDesc.hpp,
  which is not among the sources at hand. They are parameters of the model: \<open>parse\<close>
  maps the text of a payload to a descriptor of some type \<open>'t\<close>, and
  \<open>isect t x y w h\<close> is the intersection test of the descriptor with a rectangle.
  MessageQueue.cpp uses the value \<open>parse\<close> returns and has no handler around the
  call, so the model covers the calls that return a descriptor.
\<close>

type_synonym 't parse_fn = "string \<Rightarrow> 't"
type_synonym 't isect_fn = "'t \<Rightarrow> int \<Rightarrow> int \<Rightarrow> int \<Rightarrow> int \<Rightarrow> bool"

record CursorPosition =
  X :: int
  Y :: int
  Width :: int
  Height :: int

text \<open>
  \<open>_cursorPositions\<close> is iterated as a map from view ids to cursor positions
  (\<open>pair.second\<close>): an association list here, in the order of the iteration.
\<close>

type_synonym cursors = "(int \<times> CursorPosition) list"

text \<open>\<open>TileQueue::priority\<close>: the loop returns at the first cursor that intersects.\<close>

fun priority_loop :: "'t isect_fn \<Rightarrow> 't \<Rightarrow> cursors \<Rightarrow> bool" where
  "priority_loop isect tile [] = False"
| "priority_loop isect tile (pair # rest) =
     (if isect tile (X (snd pair)) (Y (snd pair)) (Width (snd pair)) (Height (snd pair))
      then True
      else priority_loop isect tile rest)"

definition priority :: "'t parse_fn \<Rightarrow> 't isect_fn \<Rightarrow> cursors \<Rightarrow> string \<Rightarrow> bool" where
  "priority parse isect cursorPositions tileMsg =
     (let tile = parse tileMsg in priority_loop isect tile cursorPositions)"

text \<open>The test that guards the scan for a duplicate in \<open>TileQueue::put_impl\<close>.\<close>

definition tilecombine_test :: "string \<Rightarrow> bool" where
  "tilecombine_test msg = (str_compare msg 0 10 ''tilecombine'' = 0)"

definition enters_scan :: "Payload list \<Rightarrow> string \<Rightarrow> bool" where
  "enters_scan queue msg =
     (queue \<noteq> [] \<and> (str_compare msg 0 4 ''tile'' = 0 \<or> tilecombine_test msg))"

text \<open>
  The scan for a duplicate, from index \<open>i\<close>: at the first entry with the key of the
  new payload the entry is overwritten, moved to the front when the new payload is
  priority, and \<open>put_impl\<close> returns (\<open>Some\<close> of the new queue). \<open>None\<close>: the loop ran to
  the end of the queue. \<open>prio\<close> is the value of \<open>priority(msg)\<close>, which reads the cursor
  positions only and which the source computes at the match.
\<close>

function scan_from ::
  "bool \<Rightarrow> Payload \<Rightarrow> string \<Rightarrow> Payload list \<Rightarrow> nat \<Rightarrow> Payload list option" where
  "scan_from prio v newMsg queue i =
     (if i < length queue then
        (if newMsg = dedupKey (queue ! i) then
           (let queue1 = queue[i := v]
            in Some (if prio then v # (take i queue1 @ drop (Suc i) queue1) else queue1))
         else scan_from prio v newMsg queue (Suc i))
      else None)"
  by pat_completeness auto
termination
  by (relation "measure (\<lambda>(prio, v, newMsg, queue, i). length queue - i)") auto

declare scan_from.simps [simp del]

definition TileQueue_put_impl ::
  "'t parse_fn \<Rightarrow> 't isect_fn \<Rightarrow> cursors \<Rightarrow> Payload list \<Rightarrow> Payload \<Rightarrow> Payload list" where
  "TileQueue_put_impl parse isect cursorPositions queue v =
     (case (if enters_scan queue v
            then scan_from (priority parse isect cursorPositions v) v (dedupKey v) queue 0
            else None) of
        Some queue' \<Rightarrow> queue'
      | None \<Rightarrow>
          if priority parse isect cursorPositions v then v # queue
          else BasicTileQueue_put_impl queue v)"

text \<open>
  \<open>TileQueue::reprioritize\<close>, the loop from index \<open>i\<close>: the first entry whose
  descriptor intersects the cursor is erased and pushed to the front, unless it is the
  front already, and the function returns.
\<close>

function reprioritize_from ::
  "'t parse_fn \<Rightarrow> 't isect_fn \<Rightarrow> CursorPosition \<Rightarrow> Payload list \<Rightarrow> nat \<Rightarrow> Payload list" where
  "reprioritize_from parse isect cursorPosition queue i =
     (if i < length queue then
        (let msg = queue ! i; tile = parse msg
         in if isect tile (X cursorPosition) (Y cursorPosition)
                 (Width cursorPosition) (Height cursorPosition)
            then (if i \<noteq> 0 then msg # (take i queue @ drop (Suc i) queue) else queue)
            else reprioritize_from parse isect cursorPosition queue (Suc i))
      else queue)"
  by pat_completeness auto
termination
  by (relation "measure (\<lambda>(parse, isect, c, queue, i). length queue - i)") auto

declare reprioritize_from.simps [simp del]

definition reprioritize ::
  "'t parse_fn \<Rightarrow> 't isect_fn \<Rightarrow> Payload list \<Rightarrow> CursorPosition \<Rightarrow> Payload list" where
  "reprioritize parse isect queue cursorPosition =
     reprioritize_from parse isect cursorPosition queue 0"

subsection \<open>MessageQueue::remove_if\<close>

text \<open>
  \<open>std::remove_if\<close> over the whole queue, as the C++ standard describes it: the
  elements that do not satisfy the predicate are move-assigned towards the front, in
  their order, and the iterator to the end of the kept range is returned. The container
  keeps its size; an element that was moved from is left in a valid but unspecified
  state, \<open>moved e\<close> here (the empty payload in the usual implementations).
  The loop has \<open>first\<close> at the next free slot and \<open>i\<close> at the next element to test.
\<close>

function remove_if_loop ::
  "(Payload \<Rightarrow> bool) \<Rightarrow> (Payload \<Rightarrow> Payload) \<Rightarrow> Payload list \<Rightarrow> nat \<Rightarrow> nat
     \<Rightarrow> Payload list \<times> nat" where
  "remove_if_loop pred moved queue first i =
     (if i < length queue then
        (if \<not> pred (queue ! i)
         then remove_if_loop pred moved
                ((queue[first := queue ! i])[i := moved (queue ! i)]) (Suc first) (Suc i)
         else remove_if_loop pred moved queue first (Suc i))
      else (queue, first))"
  by pat_completeness auto
termination
  by (relation "measure (\<lambda>(pred, moved, queue, first, i). length queue - i)") auto

declare remove_if_loop.simps [simp del]

text \<open>\<open>std::find_if\<close>: the index of the first element that satisfies the predicate.\<close>

fun find_if :: "(Payload \<Rightarrow> bool) \<Rightarrow> Payload list \<Rightarrow> nat" where
  "find_if pred [] = 0"
| "find_if pred (e # es) = (if pred e then 0 else Suc (find_if pred es))"

definition std_remove_if ::
  "(Payload \<Rightarrow> bool) \<Rightarrow> (Payload \<Rightarrow> Payload) \<Rightarrow> Payload list \<Rightarrow> Payload list \<times> nat" where
  "std_remove_if pred moved queue =
     (let first = find_if pred queue
      in if first < length queue then remove_if_loop pred moved queue first (Suc first)
         else (queue, first))"

text \<open>
  \<open>MessageQueue::remove_if\<close> calls \<open>std::remove_if\<close> and drops the iterator it
  returns: nothing is erased after it.
\<close>

definition MessageQueue_remove_if ::
  "(Payload \<Rightarrow> Payload) \<Rightarrow> Payload list \<Rightarrow> (Payload \<Rightarrow> bool) \<Rightarrow> Payload list" where
  "MessageQueue_remove_if moved queue pred = fst (std_remove_if pred moved queue)"

text \<open>
  The erase-remove idiom, \<open>_queue.erase(std::remove_if(...), _queue.end())\<close>, which
  \<open>BasicTileQueue::put_impl\<close> uses: the queue is cut at the returned iterator.
\<close>

definition erase_remove_if ::
  "(Payload \<Rightarrow> Payload) \<Rightarrow> Payload list \<Rightarrow> (Payload \<Rightarrow> bool) \<Rightarrow> Payload list" where
  "erase_remove_if moved queue pred =
     (case std_remove_if pred moved queue of (queue', ret) \<Rightarrow> take ret queue')"

subsection \<open>Runs of the queue\<close>

text \<open>
  \<open>MessageQueue::clear_impl\<close> empties the queue. A run applies operations one after the
  other to the queue; each \<open>Put\<close> comes with the cursor positions registered at that
  moment. A \<open>Get\<close> on an empty queue blocks and leaves the queue as it is.
\<close>

definition clear_impl :: "Payload list \<Rightarrow> Payload list" where
  "clear_impl queue = []"

datatype queue_op = Put cursors Payload | Get | Clear | Reprioritize CursorPosition

fun apply_op :: "'t parse_fn \<Rightarrow> 't isect_fn \<Rightarrow> Payload list \<Rightarrow> queue_op \<Rightarrow> Payload list" where
  "apply_op parse isect queue (Put cursorPositions v) =
     TileQueue_put_impl parse isect cursorPositions queue v"
| "apply_op parse isect queue Get =
     (case get queue of None \<Rightarrow> queue | Some (front, queue') \<Rightarrow> queue')"
| "apply_op parse isect queue Clear = clear_impl queue"
| "apply_op parse isect queue (Reprioritize cursorPosition) =
     reprioritize parse isect queue cursorPosition"

definition run :: "'t parse_fn \<Rightarrow> 't isect_fn \<Rightarrow> queue_op list \<Rightarrow> Payload list" where
  "run parse isect ops = foldl (apply_op parse isect) [] ops"

subsection \<open>Vocabulary of the statements about the queue\<close>

text \<open>The text of a payload begins with \<open>tile\<close> (so also when it begins with \<open>tilecombine\<close>).\<close>

definition begins_tile :: "string \<Rightarrow> bool" where
  "begins_tile msg = (take 4 msg = ''tile'')"

text \<open>
  The normalized key as the specification words it: the text truncated at the first
  occurrence of \<open> ver\<close>, the full text when there is none.
\<close>

fun normalized_key :: "string \<Rightarrow> string" where
  "normalized_key [] = []"
| "normalized_key (c # cs) =
     (if prefix '' ver'' (c # cs) then [] else c # normalized_key cs)"

text \<open>No two queued entries that begin with \<open>tile\<close> have the same key.\<close>

definition tile_keys_unique :: "Payload list \<Rightarrow> bool" where
  "tile_keys_unique queue = distinct (map dedupKey (filter begins_tile queue))"

text \<open>The new payload begins with \<open>tile\<close> and a queued entry has its key.\<close>

definition has_duplicate :: "Payload list \<Rightarrow> Payload \<Rightarrow> bool" where
  "has_duplicate queue v = (begins_tile v \<and> list_ex (\<lambda>e. dedupKey e = dedupKey v) queue)"

text \<open>The index of the first queued entry with the key of \<open>v\<close>.\<close>

definition duplicate_index :: "Payload list \<Rightarrow> Payload \<Rightarrow> nat" where
  "duplicate_index queue v = find_if (\<lambda>e. dedupKey e = dedupKey v) queue"

text \<open>The descriptor of a payload intersects a cursor rectangle.\<close>

definition intersects :: "'t parse_fn \<Rightarrow> 't isect_fn \<Rightarrow> CursorPosition \<Rightarrow> Payload \<Rightarrow> bool" where
  "intersects parse isect c msg = isect (parse msg) (X c) (Y c) (Width c) (Height c)"

text \<open>The queue without the entry at index \<open>i\<close>.\<close>

definition without :: "nat \<Rightarrow> Payload list \<Rightarrow> Payload list" where
  "without i queue = take i queue @ drop (Suc i) queue"

section \<open>SocketPoll: the timeout of the poll\<close>

text \<open>
  Machine integers of \<open>SocketPoll::poll\<close>: \<open>int\<close> has 32 bits, \<open>long\<close> and Poco's
  \<open>Int64\<close> have 64 (LP64). A value is an \<open>int\<close> of HOL and every operation is followed
  by the two's complement wrap-around of its type.
\<close>

definition int32 :: "int \<Rightarrow> int" where
  "int32 x = (x + 2 ^ 31) mod 2 ^ 32 - 2 ^ 31"

definition int64 :: "int \<Rightarrow> int" where
  "int64 x = (x + 2 ^ 63) mod 2 ^ 64 - 2 ^ 63"

text \<open>The division of C++ truncates towards zero.\<close>

definition cdiv :: "int \<Rightarrow> int \<Rightarrow> int" where
  "cdiv a b = sgn a * sgn b * (\<bar>a\<bar> div \<bar>b\<bar>)"

text \<open>
  Poco, as its documentation has it: a \<open>Timestamp\<close> is a number of microseconds in an
  \<open>Int64\<close>; \<open>Timespan(seconds, microseconds)\<close> is the span of
  \<open>seconds * 1000000 + microseconds\<close> microseconds; \<open>timestamp += span\<close> adds the
  microseconds of the span; the difference of two timestamps is a number of
  microseconds.
\<close>

definition Timespan :: "int \<Rightarrow> int \<Rightarrow> int" where
  "Timespan seconds microseconds = int64 (int64 (seconds * 1000000) + microseconds)"

definition Timestamp_add :: "int \<Rightarrow> int \<Rightarrow> int" where
  "Timestamp_add ts span = int64 (ts + span)"

definition Timestamp_diff :: "int \<Rightarrow> int \<Rightarrow> int" where
  "Timestamp_diff ts1 ts2 = int64 (ts1 - ts2)"

text \<open>
  \<open>setupPollFds\<close> hands the deadline to \<open>updateTimeout\<close> of every polled socket, in
  their order; \<open>updateTimeout\<close> of \<open>Socket\<close> does nothing and \<open>StreamSocket\<close> does not
  override it. The list holds the \<open>updateTimeout\<close> of the polled sockets.
\<close>

definition setupPollFds_timeout :: "(int \<Rightarrow> int) list \<Rightarrow> int \<Rightarrow> int" where
  "setupPollFds_timeout updateTimeouts timeout = fold (\<lambda>upd t. upd t) updateTimeouts timeout"

definition Socket_updateTimeout :: "int \<Rightarrow> int" where
  "Socket_updateTimeout timeout = timeout"

text \<open>
  The third argument of \<open>::poll\<close> in \<open>SocketPoll::poll(timeoutMaxMs)\<close>, at the time
  \<open>now\<close>: \<open>(timeout - now)/1000\<close>, converted to \<open>int\<close>.
\<close>

definition poll_timeout_arg :: "(int \<Rightarrow> int) list \<Rightarrow> int \<Rightarrow> int \<Rightarrow> int" where
  "poll_timeout_arg updateTimeouts now timeoutMaxMs =
     (let timeout = now;
          timeout = Timestamp_add timeout (Timespan 0 (int32 (timeoutMaxMs * 1000)));
          timeout = setupPollFds_timeout updateTimeouts timeout
      in int32 (cdiv (Timestamp_diff timeout now) 1000))"

section \<open>StreamSocket\<close>

unbundle bit_operations_syntax

text \<open>The event bits of poll.h and the error numbers of errno.h, on Linux.\<close>

definition POLLIN :: int where "POLLIN = 1"
definition POLLOUT :: int where "POLLOUT = 4"
definition POLLERR :: int where "POLLERR = 8"
definition POLLHUP :: int where "POLLHUP = 16"
definition POLLNVAL :: int where "POLLNVAL = 32"

definition EINTR :: int where "EINTR = 4"
definition EAGAIN :: int where "EAGAIN = 11"
definition EPIPE :: int where "EPIPE = 32"

text \<open>
  What a handler works on: its own state, the two buffers of the socket (the handler
  classes are friends of \<open>StreamSocket\<close> "to be able to access \<open>_inBuffer\<close> and
  \<open>_outBuffer\<close>") and \<open>errno\<close>, which any system call of a callback may set.
  \<open>_closed\<close> is outside: only the constructor and \<open>handlePoll\<close> assign it.
\<close>

record 'h conn =
  handler :: 'h
  inBuffer :: "char list"
  outBuffer :: "char list"
  errno :: int

text \<open>\<open>SocketHandlerInterface\<close>: the virtual functions that the socket calls.\<close>

record 'h SocketHandlerInterface =
  handleIncomingMessage :: "'h conn \<Rightarrow> 'h conn"
  hasQueuedWrites :: "'h conn \<Rightarrow> bool"
  performWrites :: "'h conn \<Rightarrow> 'h conn"
  onDisconnect :: "'h conn \<Rightarrow> 'h conn"

record 'h StreamSocket =
  conn :: "'h conn"
  closed :: bool

text \<open>The constructor: \<open>_closed(false)\<close>, empty buffers.\<close>

definition StreamSocket_ctor :: "'h \<Rightarrow> int \<Rightarrow> 'h StreamSocket" where
  "StreamSocket_ctor h e =
     \<lparr>conn = \<lparr>handler = h, inBuffer = [], outBuffer = [], errno = e\<rparr>, closed = False\<rparr>"

datatype HandleResult = CONTINUE | SOCKET_CLOSED

text \<open>
  The calls of the handler that \<open>handlePoll\<close> and the destructor make, in their order.
  A call of \<open>onDisconnect\<close> is recorded with the value \<open>_closed\<close> has at the moment of
  the call.
\<close>

datatype callback = HandleIncomingMessage | PerformWrites | OnDisconnect bool

definition is_onDisconnect :: "callback \<Rightarrow> bool" where
  "is_onDisconnect e = (case e of OnDisconnect flag \<Rightarrow> True | _ \<Rightarrow> False)"

text \<open>\<open>StreamSocket::getPollEvents\<close>.\<close>

definition getPollEvents :: "'h SocketHandlerInterface \<Rightarrow> 'h StreamSocket \<Rightarrow> int" where
  "getPollEvents H sock =
     (if outBuffer (conn sock) \<noteq> [] \<or> hasQueuedWrites H (conn sock)
      then POLLIN OR POLLOUT
      else POLLIN)"

text \<open>
  What \<open>readData\<close> and \<open>writeData\<close> (\<open>::read\<close> and \<open>::write\<close> on the non-blocking
  descriptor) return, call after call, is an input of the model: the bytes read (none:
  the return value 0, the peer closed), the number of bytes written, or \<open>-1\<close> with an
  error number. When the list is used up the call fails with \<open>EAGAIN\<close>.
\<close>

datatype read_result = ReadData "char list" | ReadError int

datatype write_result = Wrote nat | WriteError int

text \<open>
  \<open>StreamSocket::readIncomingData\<close>: a read interrupted by a signal is repeated; the
  bytes read are appended to \<open>_inBuffer\<close>; the loop goes on while a read fills the
  buffer of 16 KiB. The result is \<open>len != 0\<close>.
\<close>

fun readIncomingData :: "read_result list \<Rightarrow> 'h conn \<Rightarrow> bool \<times> 'h conn" where
  "readIncomingData [] c = (True, c\<lparr>errno := EAGAIN\<rparr>)"
| "readIncomingData (ReadError e # rest) c =
     (if e = EINTR then readIncomingData rest (c\<lparr>errno := e\<rparr>)
      else (True, c\<lparr>errno := e\<rparr>))"
| "readIncomingData (ReadData d # rest) c =
     (if d = [] then (False, c)
      else if length d = 16 * 1024
      then readIncomingData rest (c\<lparr>inBuffer := inBuffer c @ d\<rparr>)
      else (True, c\<lparr>inBuffer := inBuffer c @ d\<rparr>))"

text \<open>
  \<open>StreamSocket::writeOutgoingData\<close>: the bytes written are erased from the front of
  \<open>_outBuffer\<close>; the loop ends when the buffer is empty or a write returns no positive
  number (an interrupted write is repeated). A write reports no more bytes than the
  buffer holds.
\<close>

fun writeOutgoingData :: "write_result list \<Rightarrow> 'h conn \<Rightarrow> 'h conn" where
  "writeOutgoingData [] c = c\<lparr>errno := EAGAIN\<rparr>"
| "writeOutgoingData (WriteError e # rest) c =
     (if e = EINTR then writeOutgoingData rest (c\<lparr>errno := e\<rparr>)
      else c\<lparr>errno := e\<rparr>)"
| "writeOutgoingData (Wrote len # rest) c =
     (if len > 0
      then (if drop len (outBuffer c) \<noteq> []
            then writeOutgoingData rest (c\<lparr>outBuffer := drop len (outBuffer c)\<rparr>)
            else c\<lparr>outBuffer := drop len (outBuffer c)\<rparr>)
      else c)"

text \<open>
  The loop of \<open>handlePoll\<close> that lets the handler consume the input:
  \<open>while (!_inBuffer.empty() && oldSize != _inBuffer.size())\<close>. \<open>n\<close> counts the calls of
  \<open>handleIncomingMessage\<close>. A handler may keep the loop running for ever: \<open>None\<close>.
\<close>

partial_function (option) consume_loop ::
  "('h conn \<Rightarrow> 'h conn) \<Rightarrow> nat \<Rightarrow> nat \<Rightarrow> 'h conn \<Rightarrow> (nat \<times> 'h conn) option" where
  "consume_loop him oldSize n c =
     (if inBuffer c \<noteq> [] \<and> oldSize \<noteq> length (inBuffer c)
      then consume_loop him (length (inBuffer c)) (Suc n) (him c)
      else Some (n, c))"

text \<open>
  What one call of \<open>handlePoll\<close> meets: the events of the poll, the results of the
  reads and of the writes, and whether \<open>try_lock\<close> on the write mutex succeeds.
\<close>

record poll_env =
  events :: int
  reads :: "read_result list"
  lock_free :: bool
  writes :: "write_result list"

text \<open>
  \<open>StreamSocket::handlePoll\<close>. The result is what the function returns, the calls of
  the handler it made, and the socket after it.
\<close>

definition handlePoll ::
  "'h SocketHandlerInterface \<Rightarrow> poll_env \<Rightarrow> 'h StreamSocket
     \<Rightarrow> (HandleResult \<times> callback list \<times> 'h StreamSocket) option" where
  "handlePoll H env sock =
     (let closed0 = (events env AND (POLLHUP OR POLLERR OR POLLNVAL) \<noteq> 0);
          r = readIncomingData (reads env) (conn sock);
          closed1 = (\<not> fst r \<or> closed0)
      in case consume_loop (handleIncomingMessage H) 0 0 (snd r) of
           None \<Rightarrow> None
         | Some (n, c2) \<Rightarrow>
             (let pw = (events env AND POLLOUT \<noteq> 0 \<and> outBuffer c2 = []);
                  c3 = (if pw then performWrites H c2 else c2);
                  wr = (events env AND POLLOUT \<noteq> 0 \<or> outBuffer c3 \<noteq> []);
                  c4 = (if wr \<and> lock_free env \<and> outBuffer c3 \<noteq> []
                        then writeOutgoingData (writes env) c3 else c3);
                  closed2 = (if wr then closed1 \<or> errno c4 = EPIPE else closed1);
                  calls = replicate n HandleIncomingMessage @ (if pw then [PerformWrites] else [])
              in if closed2
                 then (let sock1 = sock\<lparr>conn := c4, closed := True\<rparr>
                       in Some (if closed sock1 then SOCKET_CLOSED else CONTINUE,
                                calls @ [OnDisconnect (closed sock1)],
                                sock1\<lparr>conn := onDisconnect H c4\<rparr>))
                 else Some (if closed sock then SOCKET_CLOSED else CONTINUE, calls,
                            sock\<lparr>conn := c4\<rparr>)))"

text \<open>The destructor: \<open>if (!_closed) _socketHandler->onDisconnect()\<close>.\<close>

definition StreamSocket_dtor :: "'h StreamSocket \<Rightarrow> callback list" where
  "StreamSocket_dtor sock = (if \<not> closed sock then [OnDisconnect (closed sock)] else [])"

text \<open>
  The life of a socket in a \<open>SocketPoll\<close>: \<open>SocketPoll::poll\<close> calls \<open>handlePoll\<close> of a
  polled socket with the events of each round, and erases the socket from
  \<open>_pollSockets\<close> when the call returns \<open>SOCKET_CLOSED\<close>, so that no further
  \<open>handlePoll\<close> reaches it; in the end the destructor runs. The result is the calls of
  the handler, in their order.
\<close>

fun poll_until_closed ::
  "'h SocketHandlerInterface \<Rightarrow> poll_env list \<Rightarrow> 'h StreamSocket
     \<Rightarrow> (callback list \<times> 'h StreamSocket) option" where
  "poll_until_closed H [] sock = Some ([], sock)"
| "poll_until_closed H (env # envs) sock =
     (case handlePoll H env sock of
        None \<Rightarrow> None
      | Some (res, calls, sock') \<Rightarrow>
          if res = SOCKET_CLOSED then Some (calls, sock')
          else map_option (\<lambda>(calls', sock''). (calls @ calls', sock''))
                 (poll_until_closed H envs sock'))"

definition lifetime ::
  "'h SocketHandlerInterface \<Rightarrow> poll_env list \<Rightarrow> 'h StreamSocket \<Rightarrow> callback list option" where
  "lifetime H envs sock =
     map_option (\<lambda>(calls, sock'). calls @ StreamSocket_dtor sock')
       (poll_until_closed H envs sock)"

text \<open>
  The state of the loop of \<open>handlePoll\<close> before the call number \<open>k\<close> (from 0) of
  \<open>handleIncomingMessage\<close>: \<open>oldSize\<close> then, and whether the test of the loop holds.
\<close>

definition oldSize_before :: "('h conn \<Rightarrow> 'h conn) \<Rightarrow> nat \<Rightarrow> 'h conn \<Rightarrow> nat \<Rightarrow> nat" where
  "oldSize_before him oldSize c k =
     (case k of 0 \<Rightarrow> oldSize | Suc j \<Rightarrow> length (inBuffer ((him ^^ j) c)))"

definition loop_test :: "('h conn \<Rightarrow> 'h conn) \<Rightarrow> nat \<Rightarrow> 'h conn \<Rightarrow> nat \<Rightarrow> bool" where
  "loop_test him oldSize c k =
     (inBuffer ((him ^^ k) c) \<noteq> []
      \<and> oldSize_before him oldSize c k \<noteq> length (inBuffer ((him ^^ k) c)))"

text \<open>
  The test as the specification words it: the buffer is not empty and, after the first
  call, its size shrank during the previous call of the handler.
\<close>

definition shrinking_test :: "('h conn \<Rightarrow> 'h conn) \<Rightarrow> 'h conn \<Rightarrow> nat \<Rightarrow> bool" where
  "shrinking_test him c k =
     (inBuffer ((him ^^ k) c) \<noteq> []
      \<and> (case k of 0 \<Rightarrow> True
          | Suc j \<Rightarrow> length (inBuffer ((him ^^ k) c)) < length (inBuffer ((him ^^ j) c))))"

text \<open>
  Handlers of the examples: one consumes the whole input at each call, one waits for
  more input and consumes nothing.
\<close>

definition draining_handler :: "unit SocketHandlerInterface" where
  "draining_handler =
     \<lparr>handleIncomingMessage = (\<lambda>c. c\<lparr>inBuffer := []\<rparr>), hasQueuedWrites = (\<lambda>c. False),
      performWrites = (\<lambda>c. c), onDisconnect = (\<lambda>c. c)\<rparr>"

definition stalled_handler :: "unit SocketHandlerInterface" where
  "stalled_handler =
     \<lparr>handleIncomingMessage = (\<lambda>c. c), hasQueuedWrites = (\<lambda>c. False),
      performWrites = (\<lambda>c. c), onDisconnect = (\<lambda>c. c)\<rparr>"

section \<open>Facts about the string operations\<close>

lemma compare3_eq_0: "compare3 xs ys = 0 \<longleftrightarrow> xs = ys"
  by (induction xs ys rule: compare3.induct) auto

lemma str_compare_0: "str_compare s 0 n lit = 0 \<longleftrightarrow> take n s = lit"
  by (simp add: str_compare_def compare3_eq_0)

lemma tilecombine_test_False: "\<not> tilecombine_test msg"
proof
  assume "tilecombine_test msg"
  then have "take 10 msg = ''tilecombine''"
    by (simp add: tilecombine_test_def str_compare_0)
  then have "length (take 10 msg) = 11"
    by simp
  then show False
    by simp
qed

section \<open>The guard of the duplicate scan\<close>

text \<open>
  C10. A payload enters the scan for a duplicate exactly when the queue is not empty
  and the first four characters of the payload are \<open>tile\<close>. The second test, which
  compares at most ten characters of the payload with the eleven characters of
  \<open>tilecombine\<close>, holds for no payload.
\<close>

theorem scan_guard_is_tile_prefix:
  "(enters_scan queue msg \<longleftrightarrow> queue \<noteq> [] \<and> take 4 msg = ''tile'')
   \<and> \<not> tilecombine_test msg
   \<and> str_compare msg 0 10 ''tilecombine'' \<noteq> 0"
  using tilecombine_test_False [of msg]
  by (auto simp: enters_scan_def str_compare_0 tilecombine_test_def)

theorem scan_guard_is_tile_prefix_witness:
  "enters_scan [''status''] ''tilecombine part=0 ver=1''
   \<and> \<not> enters_scan [] ''tilecombine part=0 ver=1''
   \<and> \<not> enters_scan [''status''] ''canceltiles''
   \<and> \<not> tilecombine_test ''tilecombine part=0 ver=1''"
  using scan_guard_is_tile_prefix [of "[''status'']" "''tilecombine part=0 ver=1''"]
    scan_guard_is_tile_prefix [of "[]" "''tilecombine part=0 ver=1''"]
    scan_guard_is_tile_prefix [of "[''status'']" "''canceltiles''"]
  by simp

section \<open>Facts about the queue\<close>

subsection \<open>Keys and prefixes\<close>

lemma take_eq_prefix: "take (length pat) s = pat \<longleftrightarrow> prefix pat s"
  by (metis append_eq_conv_conj prefix_def take_is_prefix)

lemma str_find_None: "str_find s pat = None \<longleftrightarrow> \<not> sublist pat s"
  by (induction s) (auto simp: take_eq_prefix sublist_Cons_right simp del: take_Suc_Cons)

lemma cancelled_iff: "cancelled v \<longleftrightarrow> take 5 v = ''tile '' \<and> \<not> sublist ''id='' v"
  by (simp add: cancelled_def str_compare_0 str_find_None)

lemma dedupKey_prefix: "prefix (dedupKey msg) msg"
  by (simp add: dedupKey_def substr0_def take_is_prefix split: option.splits)

lemma tile_prefix: "take 4 msg = ''tile'' \<longleftrightarrow> prefix ''tile'' msg"
  using take_eq_prefix [of "''tile''" msg] by (simp add: eval_nat_numeral)

lemma dedupKey_tile:
  assumes "take 4 msg = ''tile''"
  shows "take 4 (dedupKey msg) = ''tile''"
proof -
  from assms have "msg = ''tile'' @ drop 4 msg"
    by (metis append_take_drop_id)
  then obtain r where m: "msg = ''tile'' @ r" ..
  show ?thesis
    by (simp add: m dedupKey_def substr0_def split: option.splits)
qed

lemma same_key_tile:
  assumes "take 4 v = ''tile''" and "dedupKey e = dedupKey v"
  shows "take 4 e = ''tile''"
proof -
  have "prefix ''tile'' (dedupKey e)"
    using dedupKey_tile [OF assms(1)] assms(2) by (simp add: tile_prefix)
  with dedupKey_prefix [of e] have "prefix ''tile'' e"
    by (metis prefix_order.trans)
  then show ?thesis by (simp add: tile_prefix)
qed

subsection \<open>The scan for a duplicate and the cases of \<open>TileQueue::put_impl\<close>\<close>

lemma scan_from_append:
  "scan_from prio v k (pre @ xs) (length pre) =
     (if \<exists>e \<in> set xs. dedupKey e = k
      then Some (if prio
                 then v # pre @ takeWhile (\<lambda>e. dedupKey e \<noteq> k) xs
                        @ tl (dropWhile (\<lambda>e. dedupKey e \<noteq> k) xs)
                 else pre @ takeWhile (\<lambda>e. dedupKey e \<noteq> k) xs
                        @ v # tl (dropWhile (\<lambda>e. dedupKey e \<noteq> k) xs))
      else None)"
proof (induction xs arbitrary: pre)
  case Nil
  show ?case by (subst scan_from.simps) simp
next
  case (Cons x xs)
  show ?case
  proof (cases "k = dedupKey x")
    case True
    then show ?thesis by (subst scan_from.simps) simp
  next
    case False
    have "scan_from prio v k (pre @ x # xs) (length pre) =
          scan_from prio v k ((pre @ [x]) @ xs) (length (pre @ [x]))"
      using False by (subst scan_from.simps) simp
    also note Cons.IH [of "pre @ [x]"]
    finally show ?thesis using False by auto
  qed
qed

lemma scan_from_0:
  "scan_from prio v k queue 0 =
     (if \<exists>e \<in> set queue. dedupKey e = k
      then Some (if prio
                 then v # takeWhile (\<lambda>e. dedupKey e \<noteq> k) queue
                        @ tl (dropWhile (\<lambda>e. dedupKey e \<noteq> k) queue)
                 else takeWhile (\<lambda>e. dedupKey e \<noteq> k) queue
                        @ v # tl (dropWhile (\<lambda>e. dedupKey e \<noteq> k) queue))
      else None)"
  using scan_from_append [of prio v k "[]" queue] by simp


lemma find_if_takeWhile: "find_if pred queue = length (takeWhile (\<lambda>e. \<not> pred e) queue)"
  by (induction queue) auto

lemma find_if_less: "find_if pred queue < length queue \<longleftrightarrow> (\<exists>e \<in> set queue. pred e)"
  by (induction queue) auto

lemma find_if_nth: "find_if pred queue < length queue \<Longrightarrow> pred (queue ! find_if pred queue)"
  by (induction queue) auto

lemma find_if_least: "j < find_if pred queue \<Longrightarrow> \<not> pred (queue ! j)"
  by (induction queue arbitrary: j) (auto simp: nth_Cons split: nat.splits if_splits)

lemma take_find_if: "take (find_if pred queue) queue = takeWhile (\<lambda>e. \<not> pred e) queue"
  by (induction queue) auto

lemma drop_find_if: "drop (find_if pred queue) queue = dropWhile (\<lambda>e. \<not> pred e) queue"
  by (induction queue) auto

lemma without_find_if:
  "without (find_if pred queue) queue =
     takeWhile (\<lambda>e. \<not> pred e) queue @ tl (dropWhile (\<lambda>e. \<not> pred e) queue)"
  by (simp add: without_def take_find_if drop_Suc tl_drop [symmetric] drop_find_if)

lemma update_find_if:
  assumes "\<exists>e \<in> set queue. pred e"
  shows "queue[find_if pred queue := v] =
     takeWhile (\<lambda>e. \<not> pred e) queue @ v # tl (dropWhile (\<lambda>e. \<not> pred e) queue)"
  using assms by (induction queue) auto

lemma priority_loop_iff:
  "priority_loop isect tile cs \<longleftrightarrow>
     (\<exists>p \<in> set cs. isect tile (X (snd p)) (Y (snd p)) (Width (snd p)) (Height (snd p)))"
  by (induction cs) auto

lemma priority_iff:
  "priority parse isect cs msg \<longleftrightarrow> (\<exists>p \<in> set cs. intersects parse isect (snd p) msg)"
  by (simp add: priority_def priority_loop_iff intersects_def)

lemma enters_scan_iff: "enters_scan queue msg \<longleftrightarrow> queue \<noteq> [] \<and> begins_tile msg"
  using tilecombine_test_False [of msg]
  by (auto simp: enters_scan_def str_compare_0 begins_tile_def)

lemma has_duplicate_iff:
  "has_duplicate queue v \<longleftrightarrow> begins_tile v \<and> (\<exists>e \<in> set queue. dedupKey e = dedupKey v)"
  by (auto simp: has_duplicate_def list_ex_iff)

lemma put_impl_cases:
  "TileQueue_put_impl parse isect cs queue v =
     (if has_duplicate queue v then
        (if priority parse isect cs v
         then v # without (duplicate_index queue v) queue
         else queue[duplicate_index queue v := v])
      else if priority parse isect cs v then v # queue
      else if v = ''canceltiles'' then v # filter (\<lambda>e. \<not> cancelled e) queue
      else queue @ [v])"
proof (cases "has_duplicate queue v")
  case True
  then have ex: "\<exists>e \<in> set queue. dedupKey e = dedupKey v" and bt: "begins_tile v"
    by (auto simp: has_duplicate_iff)
  then have ne: "queue \<noteq> []" by auto
  show ?thesis
    using True ex bt ne
    by (simp add: TileQueue_put_impl_def enters_scan_iff scan_from_0 duplicate_index_def
        without_find_if update_find_if)
next
  case False
  then have "\<not> begins_tile v \<or> queue = [] \<or> \<not> (\<exists>e \<in> set queue. dedupKey e = dedupKey v)"
    by (auto simp: has_duplicate_iff)
  then show ?thesis
    using False
    by (auto simp: TileQueue_put_impl_def enters_scan_iff scan_from_0
        BasicTileQueue_put_impl_def MessageQueue_put_impl_def)
qed



subsection \<open>Unique keys are an invariant of the queue\<close>

lemma split_at_find_if:
  assumes "\<exists>e \<in> set queue. pred e"
  shows "queue = takeWhile (\<lambda>e. \<not> pred e) queue
           @ queue ! find_if pred queue # tl (dropWhile (\<lambda>e. \<not> pred e) queue)"
  using assms by (induction queue) auto

lemma unique_replace:
  assumes inv: "tile_keys_unique (pre @ x # rest)"
    and key: "dedupKey x = dedupKey v" and bt: "begins_tile v"
  shows "tile_keys_unique (pre @ v # rest)" and "tile_keys_unique (v # pre @ rest)"
proof -
  have "begins_tile x"
    using same_key_tile [of v x] key bt by (simp add: begins_tile_def)
  with inv key bt show "tile_keys_unique (pre @ v # rest)" and "tile_keys_unique (v # pre @ rest)"
    by (auto simp: tile_keys_unique_def)
qed

lemma unique_put:
  assumes inv: "tile_keys_unique queue"
  shows "tile_keys_unique (TileQueue_put_impl parse isect cs queue v)"
proof (cases "has_duplicate queue v")
  case True
  then have ex: "\<exists>e \<in> set queue. dedupKey e = dedupKey v" and bt: "begins_tile v"
    by (auto simp: has_duplicate_iff)
  let ?P = "\<lambda>e. dedupKey e = dedupKey v"
  let ?pre = "takeWhile (\<lambda>e. \<not> ?P e) queue" and ?rest = "tl (dropWhile (\<lambda>e. \<not> ?P e) queue)"
  have split: "queue = ?pre @ queue ! find_if ?P queue # ?rest"
    using ex by (rule split_at_find_if)
  have key: "dedupKey (queue ! find_if ?P queue) = dedupKey v"
    using ex find_if_nth [of ?P queue] by (simp add: find_if_less)
  have inv': "tile_keys_unique (?pre @ queue ! find_if ?P queue # ?rest)"
    using inv split by simp
  show ?thesis
    using True unique_replace [OF inv' key bt] ex
    by (simp add: put_impl_cases duplicate_index_def without_find_if update_find_if)
next
  case False
  then have fresh: "begins_tile v \<Longrightarrow> dedupKey v \<notin> dedupKey ` set queue"
    by (auto simp: has_duplicate_iff)
  have "filter begins_tile (filter (\<lambda>e. \<not> cancelled e) queue) =
        filter (\<lambda>e. \<not> cancelled e) (filter begins_tile queue)"
    by (simp add: conj_commute)
  moreover have "distinct (map dedupKey
        (filter (\<lambda>e. \<not> cancelled e) (filter begins_tile queue)))"
    using inv unfolding tile_keys_unique_def by (rule distinct_map_filter)
  ultimately have cancel: "tile_keys_unique (filter (\<lambda>e. \<not> cancelled e) queue)"
    by (simp only: tile_keys_unique_def)
  have "\<not> begins_tile ''canceltiles''"
    by (simp add: begins_tile_def)
  with False inv fresh cancel show ?thesis
    by (auto simp: put_impl_cases tile_keys_unique_def)
qed

lemma reprioritize_from_append:
  "reprioritize_from parse isect c (pre @ xs) (length pre) =
     (if \<exists>e \<in> set xs. intersects parse isect c e
      then hd (dropWhile (\<lambda>e. \<not> intersects parse isect c e) xs)
             # pre @ takeWhile (\<lambda>e. \<not> intersects parse isect c e) xs
             @ tl (dropWhile (\<lambda>e. \<not> intersects parse isect c e) xs)
      else pre @ xs)"
proof (induction xs arbitrary: pre)
  case Nil
  show ?case by (subst reprioritize_from.simps) simp
next
  case (Cons x xs)
  show ?case
  proof (cases "intersects parse isect c x")
    case True
    then show ?thesis
      by (subst reprioritize_from.simps) (auto simp: intersects_def Let_def)
  next
    case False
    have "reprioritize_from parse isect c (pre @ x # xs) (length pre) =
          reprioritize_from parse isect c ((pre @ [x]) @ xs) (length (pre @ [x]))"
      using False by (subst reprioritize_from.simps) (simp add: intersects_def Let_def)
    also note Cons.IH [of "pre @ [x]"]
    finally show ?thesis using False by auto
  qed
qed

lemma reprioritize_cases:
  "reprioritize parse isect queue c =
     (if \<exists>e \<in> set queue. intersects parse isect c e
      then queue ! find_if (intersects parse isect c) queue
             # without (find_if (intersects parse isect c) queue) queue
      else queue)"
proof (cases "\<exists>e \<in> set queue. intersects parse isect c e")
  case True
  let ?P = "intersects parse isect c"
  have "dropWhile (\<lambda>e. \<not> ?P e) queue \<noteq> []"
    using True by (simp add: dropWhile_eq_Nil_conv)
  then have "hd (dropWhile (\<lambda>e. \<not> ?P e) queue) = queue ! find_if ?P queue"
    by (metis drop_find_if hd_drop_conv_nth find_if_less True)
  then show ?thesis
    using True reprioritize_from_append [of parse isect c "[]" queue]
    by (simp add: reprioritize_def without_find_if)
next
  case False
  then show ?thesis
    using reprioritize_from_append [of parse isect c "[]" queue]
    by (simp add: reprioritize_def)
qed

lemma unique_reprioritize:
  assumes inv: "tile_keys_unique queue"
  shows "tile_keys_unique (reprioritize parse isect queue c)"
proof (cases "\<exists>e \<in> set queue. intersects parse isect c e")
  case True
  let ?P = "intersects parse isect c"
  have "tile_keys_unique (takeWhile (\<lambda>e. \<not> ?P e) queue
           @ queue ! find_if ?P queue # tl (dropWhile (\<lambda>e. \<not> ?P e) queue))"
    using inv split_at_find_if [OF True] by simp
  then show ?thesis
    using True by (auto simp: reprioritize_cases without_find_if tile_keys_unique_def)
next
  case False
  with inv show ?thesis by (simp add: reprioritize_cases)
qed

lemma unique_tl: "tile_keys_unique queue \<Longrightarrow> tile_keys_unique (tl queue)"
  by (cases queue) (auto simp: tile_keys_unique_def split: if_splits)

lemma unique_apply_op:
  "tile_keys_unique queue \<Longrightarrow> tile_keys_unique (apply_op parse isect queue x)"
  by (cases x)
    (auto simp: unique_put unique_reprioritize unique_tl get_def clear_impl_def
      tile_keys_unique_def [of "[]"])

lemma unique_run: "tile_keys_unique (run parse isect ops)"
  unfolding run_def
  by (induction ops rule: rev_induct) (simp_all add: tile_keys_unique_def [of "[]"] unique_apply_op)

lemma put_impl_mem: "v \<in> set (TileQueue_put_impl parse isect cs queue v)"
proof (cases "has_duplicate queue v")
  case True
  then have "duplicate_index queue v < length queue"
    by (simp add: has_duplicate_iff duplicate_index_def find_if_less)
  then have "v \<in> set (queue[duplicate_index queue v := v])"
    by (rule set_update_memI)
  with True show ?thesis by (simp add: put_impl_cases)
next
  case False
  then show ?thesis by (simp add: put_impl_cases)
qed

lemma only_entry_with_key:
  assumes "tile_keys_unique queue" and "v \<in> set queue" and "begins_tile v"
  shows "filter (\<lambda>e. dedupKey e = dedupKey v) queue = [v]"
proof -
  have bt: "\<And>e. dedupKey e = dedupKey v \<Longrightarrow> begins_tile e"
    using same_key_tile [of v] assms(3) by (simp add: begins_tile_def)
  from assms(1,2) show ?thesis
    unfolding tile_keys_unique_def
  proof (induction queue)
    case Nil
    then show ?case by simp
  next
    case (Cons x xs)
    show ?case
    proof (cases "x = v")
      case True
      have "dedupKey e \<noteq> dedupKey v" if "e \<in> set xs" for e
      proof
        assume eq: "dedupKey e = dedupKey v"
        then have "begins_tile e" by (rule bt)
        with that have "dedupKey e \<in> dedupKey ` set (filter begins_tile xs)" by simp
        with Cons.prems(1) True assms(3) eq show False by simp
      qed
      then have "filter (\<lambda>e. dedupKey e = dedupKey v) xs = []"
        by (simp add: filter_empty_conv)
      with True show ?thesis by simp
    next
      case False
      then have "v \<in> set xs" using Cons.prems(2) by simp
      moreover have "distinct (map dedupKey (filter begins_tile xs))"
        using Cons.prems(1) by (simp split: if_splits)
      ultimately have "filter (\<lambda>e. dedupKey e = dedupKey v) xs = [v]"
        by (rule Cons.IH [rotated])
      moreover have "dedupKey x \<noteq> dedupKey v"
        using Cons.prems(1) \<open>v \<in> set xs\<close> assms(3) bt [of x] by (auto split: if_splits)
      ultimately show ?thesis by simp
    qed
  qed
qed



subsection \<open>\<open>std::remove_if\<close>\<close>

lemma remove_if_loop_inv:
  assumes "first < i" and "i \<le> length queue"
  shows "length (fst (remove_if_loop pred moved queue first i)) = length queue
    \<and> snd (remove_if_loop pred moved queue first i) \<le> length queue
    \<and> take (snd (remove_if_loop pred moved queue first i))
         (fst (remove_if_loop pred moved queue first i)) =
       take first queue @ filter (\<lambda>e. \<not> pred e) (drop i queue)"
  using assms
proof (induction pred moved queue first i rule: remove_if_loop.induct)
  case (1 pred moved queue first i)
  show ?case
  proof (cases "i < length queue")
    case False
    with "1.prems" show ?thesis
      by (subst (1 2 3 4) remove_if_loop.simps) simp
  next
    case True
    note lt = this
    show ?thesis
    proof (cases "pred (queue ! i)")
      case True
      have step: "remove_if_loop pred moved queue first i =
                  remove_if_loop pred moved queue first (Suc i)"
        using lt True by (subst remove_if_loop.simps) simp
      have "drop i queue = queue ! i # drop (Suc i) queue"
        using lt by (simp add: Cons_nth_drop_Suc)
      then show ?thesis
        using "1.IH"(2) [OF lt] True "1.prems" lt by (simp add: step)
    next
      case False
      let ?q = "(queue[first := queue ! i])[i := moved (queue ! i)]"
      have step: "remove_if_loop pred moved queue first i =
                  remove_if_loop pred moved ?q (Suc first) (Suc i)"
        using lt False by (subst remove_if_loop.simps) simp
      have d: "drop i queue = queue ! i # drop (Suc i) queue"
        using lt by (simp add: Cons_nth_drop_Suc)
      have t: "take (Suc first) ?q = take first queue @ [queue ! i]"
        using "1.prems" lt by (simp add: take_Suc_conv_app_nth)
      have "drop (Suc i) ?q = drop (Suc i) queue"
        using "1.prems" by simp
      with "1.IH"(1) [OF lt False] "1.prems" lt t d False show ?thesis
        by (simp add: step)
    qed
  qed
qed

lemma filter_not_takeWhile:
  "filter (\<lambda>e. \<not> pred e) (takeWhile (\<lambda>e. \<not> pred e) queue) = takeWhile (\<lambda>e. \<not> pred e) queue"
  by (induction queue) auto

lemma std_remove_if_spec:
  "length (fst (std_remove_if pred moved queue)) = length queue
   \<and> snd (std_remove_if pred moved queue) \<le> length queue
   \<and> take (snd (std_remove_if pred moved queue)) (fst (std_remove_if pred moved queue)) =
       filter (\<lambda>e. \<not> pred e) queue"
proof (cases "find_if pred queue < length queue")
  case True
  let ?f = "find_if pred queue"
  have ex: "\<exists>e \<in> set queue. pred e"
    using True by (simp add: find_if_less)
  have "queue = take ?f queue @ queue ! ?f # drop (Suc ?f) queue"
    using True by (simp add: id_take_nth_drop [symmetric])
  then have "filter (\<lambda>e. \<not> pred e) queue =
      filter (\<lambda>e. \<not> pred e) (take ?f queue @ queue ! ?f # drop (Suc ?f) queue)"
    by simp
  also have "\<dots> = take ?f queue @ filter (\<lambda>e. \<not> pred e) (drop (Suc ?f) queue)"
    using find_if_nth [OF True] by (simp add: take_find_if filter_not_takeWhile)
  finally show ?thesis
    using True remove_if_loop_inv [of ?f "Suc ?f" queue pred moved]
    by (simp add: std_remove_if_def Let_def)
next
  case False
  then have "\<forall>e \<in> set queue. \<not> pred e"
    by (simp add: find_if_less)
  then have "filter (\<lambda>e. \<not> pred e) queue = queue"
    by simp
  moreover have "find_if pred queue = length queue"
    using False find_if_takeWhile [of pred queue] length_takeWhile_le [of "\<lambda>e. \<not> pred e" queue]
    by simp
  ultimately show ?thesis
    by (simp add: std_remove_if_def Let_def)
qed

lemma erase_remove_if_filter:
  "erase_remove_if moved queue pred = filter (\<lambda>e. \<not> pred e) queue"
  using std_remove_if_spec [of pred moved queue]
  by (cases "std_remove_if pred moved queue") (simp add: erase_remove_if_def)

text \<open>
  C3. \<open>MessageQueue::remove_if\<close> erases nothing: whatever the predicate, the queue has
  as many payloads after the call as before. The predicate is applied: the payloads
  that do not satisfy it are shifted to the front, in their order. The erase-remove
  idiom of \<open>BasicTileQueue::put_impl\<close> leaves exactly these payloads, and the two
  results differ as soon as one payload satisfies the predicate.
\<close>

theorem remove_if_erases_nothing:
  "length (MessageQueue_remove_if moved queue pred) = length queue
   \<and> take (length (filter (\<lambda>e. \<not> pred e) queue)) (MessageQueue_remove_if moved queue pred) =
       filter (\<lambda>e. \<not> pred e) queue
   \<and> erase_remove_if moved queue pred = filter (\<lambda>e. \<not> pred e) queue
   \<and> (list_ex pred queue \<longrightarrow>
        MessageQueue_remove_if moved queue pred \<noteq> erase_remove_if moved queue pred)"
proof -
  let ?r = "std_remove_if pred moved queue"
  note spec = std_remove_if_spec [of pred moved queue]
  have len: "length (MessageQueue_remove_if moved queue pred) = length queue"
    using spec by (simp add: MessageQueue_remove_if_def)
  have "length (filter (\<lambda>e. \<not> pred e) queue) = snd ?r"
  proof -
    from spec have "filter (\<lambda>e. \<not> pred e) queue = take (snd ?r) (fst ?r)"
      by simp
    then have "length (filter (\<lambda>e. \<not> pred e) queue) = length (take (snd ?r) (fst ?r))"
      by (rule arg_cong)
    also have "\<dots> = snd ?r"
    proof -
      have "snd ?r \<le> length (fst ?r)"
        using spec by simp
      then show ?thesis by simp
    qed
    finally show ?thesis .
  qed
  then have kept: "take (length (filter (\<lambda>e. \<not> pred e) queue))
      (MessageQueue_remove_if moved queue pred) = filter (\<lambda>e. \<not> pred e) queue"
    using spec by (simp add: MessageQueue_remove_if_def)
  have differ: "MessageQueue_remove_if moved queue pred \<noteq> erase_remove_if moved queue pred"
    if "list_ex pred queue"
  proof -
    from that obtain e where "e \<in> set queue" and "pred e"
      by (auto simp: list_ex_iff)
    then have "length (filter (\<lambda>e. \<not> pred e) queue) < length queue"
      by (metis length_filter_less)
    with len show ?thesis
      by (auto simp: erase_remove_if_filter)
  qed
  from len kept differ show ?thesis
    by (simp add: erase_remove_if_filter)
qed

theorem remove_if_erases_nothing_witness:
  "list_ex (\<lambda>e. e = ''b'') [''a'', ''b'', ''c'']
   \<and> MessageQueue_remove_if (\<lambda>e. []) [''a'', ''b'', ''c''] (\<lambda>e. e = ''b'') = [''a'', ''c'', []]
   \<and> length (MessageQueue_remove_if (\<lambda>e. []) [''a'', ''b'', ''c''] (\<lambda>e. e = ''b'')) = 3
   \<and> erase_remove_if (\<lambda>e. []) [''a'', ''b'', ''c''] (\<lambda>e. e = ''b'') = [''a'', ''c'']"
  using remove_if_erases_nothing [of "\<lambda>e. []" "[''a'', ''b'', ''c'']" "\<lambda>e. e = ''b''"]
  by (simp add: MessageQueue_remove_if_def std_remove_if_def remove_if_loop.simps)

section \<open>Deduplication, cancellation and priority\<close>

lemma dedupKey_normalized: "dedupKey msg = normalized_key msg"
proof (induction msg)
  case Nil
  show ?case by (simp add: dedupKey_def substr0_def)
next
  case (Cons c cs)
  have p: "prefix '' ver'' (c # cs) \<longleftrightarrow> take (length '' ver'') (c # cs) = '' ver''"
    by (simp only: take_eq_prefix)
  show ?case
  proof (cases "prefix '' ver'' (c # cs)")
    case True
    then have "str_find (c # cs) '' ver'' = Some 0"
      unfolding p by (simp del: take_Suc_Cons)
    with True show ?thesis by (simp add: dedupKey_def substr0_def)
  next
    case False
    then have "str_find (c # cs) '' ver'' = map_option Suc (str_find cs '' ver'')"
      unfolding p by (simp del: take_Suc_Cons)
    then have "dedupKey (c # cs) = c # dedupKey cs"
      by (cases "str_find cs '' ver''") (simp_all add: dedupKey_def substr0_def)
    with False Cons.IH show ?thesis by simp
  qed
qed

lemma normalized_key_no_occurrence:
  "(\<forall>j. \<not> prefix '' ver'' (drop j msg)) \<Longrightarrow> normalized_key msg = msg"
proof (induction msg)
  case Nil
  show ?case by simp
next
  case (Cons c cs)
  from Cons.prems [rule_format, of 0] have "\<not> prefix '' ver'' (c # cs)" by simp
  moreover have "\<forall>j. \<not> prefix '' ver'' (drop j cs)"
  proof
    fix j show "\<not> prefix '' ver'' (drop j cs)"
      using Cons.prems [rule_format, of "Suc j"] by simp
  qed
  ultimately show ?case using Cons.IH by simp
qed

lemma normalized_key_first_occurrence:
  "(\<forall>j < length k. \<not> prefix '' ver'' (drop j (k @ '' ver'' @ rest))) \<Longrightarrow>
     normalized_key (k @ '' ver'' @ rest) = k"
proof (induction k)
  case Nil
  show ?case by simp
next
  case (Cons c k)
  from Cons.prems [rule_format, of 0]
  have "\<not> prefix '' ver'' ((c # k) @ '' ver'' @ rest)" by simp
  moreover have "\<forall>j < length k. \<not> prefix '' ver'' (drop j (k @ '' ver'' @ rest))"
  proof (intro allI impI)
    fix j assume "j < length k"
    then show "\<not> prefix '' ver'' (drop j (k @ '' ver'' @ rest))"
      using Cons.prems [rule_format, of "Suc j"] by simp
  qed
  ultimately show ?case using Cons.IH by simp
qed

lemma find_if_eq:
  assumes "i < length queue" and "pred (queue ! i)" and "\<forall>j < i. \<not> pred (queue ! j)"
  shows "find_if pred queue = i"
proof -
  have ex: "\<exists>e \<in> set queue. pred e"
    using assms(1,2) by (metis nth_mem)
  then have "find_if pred queue < length queue"
    by (simp add: find_if_less)
  then have "pred (queue ! find_if pred queue)"
    by (rule find_if_nth)
  with assms(3) have "\<not> find_if pred queue < i"
    by blast
  moreover have "\<not> i < find_if pred queue"
    using find_if_least [of i pred queue] assms(2) by blast
  ultimately show ?thesis by simp
qed

text \<open>
  C1. The key that the code compares is the normalized key: the text cut at the
  first occurrence of \<open> ver\<close>, the full text when there is none. At any moment of a run
  of the queue no two entries that begin with \<open>tile\<close> (so also \<open>tilecombine\<close>) have the
  same normalized key. After such a payload is put, the queue holds exactly one entry
  with its normalized key, the payload itself. When entries with that key are queued
  already, the first of them is replaced in place by the new payload
  (\<open>_queue[i] = value\<close>) and the queue keeps its length; when the new payload is
  priority, the replaced slot is then moved to the front. In scenario S1 the queue ends
  as the single payload with \<open>ver=2\<close>; a payload whose first \<open> ver\<close> begins another
  word (\<open> verbose=1\<close>) is cut there and replaced as well.
\<close>

theorem tile_entries_deduplicated:
  "dedupKey msg = normalized_key msg
   \<and> ((\<forall>j. \<not> prefix '' ver'' (drop j msg)) \<longrightarrow> normalized_key msg = msg)
   \<and> ((\<forall>j < length k. \<not> prefix '' ver'' (drop j (k @ '' ver'' @ rest))) \<longrightarrow>
        normalized_key (k @ '' ver'' @ rest) = k)
   \<and> distinct (map normalized_key (filter (\<lambda>e. take 4 e = ''tile'') (run parse isect ops)))
   \<and> (take 4 v = ''tile'' \<longrightarrow>
        filter (\<lambda>e. normalized_key e = normalized_key v)
          (TileQueue_put_impl parse isect cs (run parse isect ops) v) = [v])
   \<and> (take 4 v = ''tile'' \<and> i < length queue
        \<and> normalized_key (queue ! i) = normalized_key v
        \<and> (\<forall>j < i. normalized_key (queue ! j) \<noteq> normalized_key v) \<longrightarrow>
        length (TileQueue_put_impl parse isect cs queue v) = length queue
        \<and> TileQueue_put_impl parse isect cs queue v =
            (if priority parse isect cs v
             then v # without i (queue[i := v])
             else queue[i := v]))
   \<and> TileQueue_put_impl parse isect []
        (TileQueue_put_impl parse isect [] [] ''tile part=0 tileposx=0 tileposy=0 ver=1'')
        ''tile part=0 tileposx=0 tileposy=0 ver=2''
       = [''tile part=0 tileposx=0 tileposy=0 ver=2'']
   \<and> TileQueue_put_impl parse isect []
        (TileQueue_put_impl parse isect [] [] ''tile a verbose=1 ver=1'') ''tile a ver=2''
       = [''tile a ver=2'']"
proof -
  have key: "dedupKey = normalized_key"
    by (rule ext) (rule dedupKey_normalized)
  have bt: "begins_tile = (\<lambda>e. take 4 e = ''tile'')"
    by (rule ext) (simp add: begins_tile_def)
  have inv0: "tile_keys_unique (run parse isect ops)"
    by (rule unique_run)
  then have inv: "distinct (map normalized_key
      (filter (\<lambda>e. take 4 e = ''tile'') (run parse isect ops)))"
    by (simp add: tile_keys_unique_def key bt)
  have one: "filter (\<lambda>e. normalized_key e = normalized_key v)
      (TileQueue_put_impl parse isect cs (run parse isect ops) v) = [v]"
    if "take 4 v = ''tile''"
  proof -
    from that have "begins_tile v" by (simp add: begins_tile_def)
    with unique_put [OF inv0] put_impl_mem
    have "filter (\<lambda>e. dedupKey e = dedupKey v)
        (TileQueue_put_impl parse isect cs (run parse isect ops) v) = [v]"
      by (rule only_entry_with_key)
    then show ?thesis by (simp add: key)
  qed
  have dup: "length (TileQueue_put_impl parse isect cs queue v) = length queue
        \<and> TileQueue_put_impl parse isect cs queue v =
            (if priority parse isect cs v
             then v # without i (queue[i := v])
             else queue[i := v])"
    if t: "take 4 v = ''tile''" and i: "i < length queue"
      and k: "normalized_key (queue ! i) = normalized_key v"
      and l: "\<forall>j < i. normalized_key (queue ! j) \<noteq> normalized_key v"
  proof -
    have idx: "duplicate_index queue v = i"
      unfolding duplicate_index_def key using i k l by (rule find_if_eq)
    have "queue ! i \<in> set queue" using i by simp
    with k t have d: "has_duplicate queue v"
      by (auto simp: has_duplicate_iff begins_tile_def key)
    with i idx show ?thesis
      by (auto simp: put_impl_cases without_def)
  qed
  have s1: "TileQueue_put_impl parse isect []
        (TileQueue_put_impl parse isect [] [] ''tile part=0 tileposx=0 tileposy=0 ver=1'')
        ''tile part=0 tileposx=0 tileposy=0 ver=2''
       = [''tile part=0 tileposx=0 tileposy=0 ver=2'']"
    by (simp add: put_impl_cases has_duplicate_def begins_tile_def priority_def
        duplicate_index_def dedupKey_def substr0_def)
  have s2: "TileQueue_put_impl parse isect []
        (TileQueue_put_impl parse isect [] [] ''tile a verbose=1 ver=1'') ''tile a ver=2''
       = [''tile a ver=2'']"
    by (simp add: put_impl_cases has_duplicate_def begins_tile_def priority_def
        duplicate_index_def dedupKey_def substr0_def)
  from dedupKey_normalized [of msg] normalized_key_no_occurrence [of msg]
    normalized_key_first_occurrence [of k rest] inv one dup s1 s2
  show ?thesis
    by blast
qed

theorem tile_entries_deduplicated_witness:
  "normalized_key ''tile part=0 tileposx=0 tileposy=0 ver=2'' = ''tile part=0 tileposx=0 tileposy=0''
   \<and> normalized_key ''status'' = ''status''
   \<and> TileQueue_put_impl (\<lambda>msg. msg) (\<lambda>tile x y w h. False) []
        [''status'', ''tile part=0 tileposx=0 tileposy=0 ver=1'']
        ''tile part=0 tileposx=0 tileposy=0 ver=2''
      = [''status'', ''tile part=0 tileposx=0 tileposy=0 ver=2'']
   \<and> filter (\<lambda>e. normalized_key e = normalized_key ''tile part=0 tileposx=0 tileposy=0 ver=2'')
        (TileQueue_put_impl (\<lambda>msg. msg) (\<lambda>tile x y w h. False) []
          (run (\<lambda>msg. msg) (\<lambda>tile x y w h. False)
             [Put [] ''status'', Put [] ''tile part=0 tileposx=0 tileposy=0 ver=1''])
          ''tile part=0 tileposx=0 tileposy=0 ver=2'')
      = [''tile part=0 tileposx=0 tileposy=0 ver=2'']"
proof -
  let ?t1 = "''tile part=0 tileposx=0 tileposy=0 ver=1''"
  let ?t2 = "''tile part=0 tileposx=0 tileposy=0 ver=2''"
  let ?q = "[''status'', ?t1]"
  note inst = tile_entries_deduplicated [where parse = "\<lambda>msg. msg"
      and isect = "\<lambda>tile x y w h. False" and cs = "[]" and v = ?t2 and queue = ?q
      and i = 1 and ops = "[Put [] ''status'', Put [] ?t1]"]
  have k2: "normalized_key ?t2 = ''tile part=0 tileposx=0 tileposy=0''"
    by simp
  have ks: "normalized_key ''status'' = ''status''"
    by simp
  have pre: "take 4 ?t2 = ''tile'' \<and> (1::nat) < length ?q
      \<and> normalized_key (?q ! 1) = normalized_key ?t2
      \<and> (\<forall>j < (1::nat). normalized_key (?q ! j) \<noteq> normalized_key ?t2)"
    by simp
  have "TileQueue_put_impl (\<lambda>msg. msg) (\<lambda>tile x y w h. False) [] ?q ?t2 = ?q[1 := ?t2]"
    using inst pre by (simp add: priority_def)
  then have put: "TileQueue_put_impl (\<lambda>msg. msg) (\<lambda>tile x y w h. False) [] ?q ?t2
      = [''status'', ?t2]"
    by simp
  have one: "filter (\<lambda>e. normalized_key e = normalized_key ?t2)
        (TileQueue_put_impl (\<lambda>msg. msg) (\<lambda>tile x y w h. False) []
          (run (\<lambda>msg. msg) (\<lambda>tile x y w h. False) [Put [] ''status'', Put [] ?t1]) ?t2)
      = [?t2]"
    using inst by simp
  from k2 ks put one show ?thesis
    by (simp only: simp_thms)
qed

text \<open>
  C2. When \<open>canceltiles\<close> is not priority (its descriptor intersects no registered
  cursor), putting it removes every queued entry that begins with \<open>tile \<close> and does
  not contain \<open>id=\<close>, keeps every other entry in its order, and places \<open>canceltiles\<close>
  at the front.
\<close>

theorem canceltiles_purges_tiles:
  assumes "\<not> priority parse isect cs ''canceltiles''"
  shows "TileQueue_put_impl parse isect cs queue ''canceltiles'' =
     ''canceltiles'' # filter (\<lambda>e. \<not> (take 5 e = ''tile '' \<and> \<not> sublist ''id='' e)) queue"
proof -
  have "\<not> has_duplicate queue ''canceltiles''"
    by (simp add: has_duplicate_def begins_tile_def)
  with assms show ?thesis
    by (simp add: put_impl_cases cancelled_iff)
qed

theorem canceltiles_purges_tiles_witness:
  "\<not> priority (\<lambda>msg. msg) (\<lambda>tile x y w h. tile = ''tile part=0 tileposx=0 tileposy=0 ver=1'')
       [(0, \<lparr>X = 0, Y = 0, Width = 10, Height = 10\<rparr>)] ''canceltiles''
   \<and> TileQueue_put_impl (\<lambda>msg. msg)
        (\<lambda>tile x y w h. tile = ''tile part=0 tileposx=0 tileposy=0 ver=1'')
        [(0, \<lparr>X = 0, Y = 0, Width = 10, Height = 10\<rparr>)]
        [''tile part=0 tileposx=0 tileposy=0 ver=1'',
         ''tile part=0 tileposx=256 tileposy=0 id=preview ver=1'',
         ''tilecombine part=0 ver=3'',
         ''status'']
        ''canceltiles''
      = [''canceltiles'',
         ''tile part=0 tileposx=256 tileposy=0 id=preview ver=1'',
         ''tilecombine part=0 ver=3'',
         ''status'']"
proof -
  have p: "\<not> priority (\<lambda>msg. msg)
       (\<lambda>tile x y w h. tile = ''tile part=0 tileposx=0 tileposy=0 ver=1'')
       [(0, \<lparr>X = 0, Y = 0, Width = 10, Height = 10\<rparr>)] ''canceltiles''"
    by (simp add: priority_def)
  have s: "sublist ''id='' ''tile part=0 tileposx=256 tileposy=0 id=preview ver=1''"
    using str_find_None [of "''tile part=0 tileposx=256 tileposy=0 id=preview ver=1''" "''id=''"]
    by simp
  have n: "\<not> sublist ''id='' ''tile part=0 tileposx=0 tileposy=0 ver=1''"
    using str_find_None [of "''tile part=0 tileposx=0 tileposy=0 ver=1''" "''id=''"]
    by simp
  show ?thesis
    using p canceltiles_purges_tiles [OF p,
        of "[''tile part=0 tileposx=0 tileposy=0 ver=1'',
         ''tile part=0 tileposx=256 tileposy=0 id=preview ver=1'',
         ''tilecombine part=0 ver=3'',
         ''status'']"] s n
    by simp
qed

text \<open>
  C4. A payload is priority exactly when its descriptor intersects the rectangle of
  at least one registered cursor. A priority payload without a queued duplicate is
  pushed to the front; a payload that is not priority, is not \<open>canceltiles\<close> and has no
  queued duplicate is appended to the back. In scenario S3, with the cursor
  (100, 100, 50, 50) registered, a tile that does not intersect it put first and a
  tile with another key that intersects it put second, the queue yields the second
  tile and then the first.
\<close>

theorem priority_payload_goes_first:
  "(priority parse isect cs msg \<longleftrightarrow> (\<exists>p \<in> set cs. intersects parse isect (snd p) msg))
   \<and> (priority parse isect cs msg \<and> \<not> has_duplicate queue msg \<longrightarrow>
        TileQueue_put_impl parse isect cs queue msg = msg # queue)
   \<and> (\<not> priority parse isect cs msg \<and> msg \<noteq> ''canceltiles'' \<and> \<not> has_duplicate queue msg \<longrightarrow>
        TileQueue_put_impl parse isect cs queue msg = queue @ [msg])
   \<and> (\<not> intersects parse isect \<lparr>X = 100, Y = 100, Width = 50, Height = 50\<rparr> T1
        \<and> intersects parse isect \<lparr>X = 100, Y = 100, Width = 50, Height = 50\<rparr> T2
        \<and> dedupKey T1 \<noteq> dedupKey T2 \<longrightarrow>
        get (TileQueue_put_impl parse isect [(view, \<lparr>X = 100, Y = 100, Width = 50, Height = 50\<rparr>)]
              (TileQueue_put_impl parse isect
                 [(view, \<lparr>X = 100, Y = 100, Width = 50, Height = 50\<rparr>)] [] T1) T2)
          = Some (T2, [T1])
        \<and> get [T1] = Some (T1, []))"
proof -
  let ?c = "\<lparr>X = 100, Y = 100, Width = 50, Height = 50\<rparr>"
  have s3: "get (TileQueue_put_impl parse isect [(view, ?c)]
              (TileQueue_put_impl parse isect [(view, ?c)] [] T1) T2) = Some (T2, [T1])
        \<and> get [T1] = Some (T1, [])"
    if "\<not> intersects parse isect ?c T1" and "intersects parse isect ?c T2"
      and "dedupKey T1 \<noteq> dedupKey T2"
  proof -
    have "TileQueue_put_impl parse isect [(view, ?c)] [] T1 = [T1]"
      using that(1) by (simp add: put_impl_cases priority_iff has_duplicate_def)
    moreover have "TileQueue_put_impl parse isect [(view, ?c)] [T1] T2 = [T2, T1]"
      using that(2,3) by (simp add: put_impl_cases priority_iff has_duplicate_def)
    ultimately show ?thesis
      by (simp add: get_def wait_impl_def)
  qed
  show ?thesis
    using s3 by (simp add: put_impl_cases priority_iff)
qed

theorem priority_payload_goes_first_witness:
  "priority (\<lambda>msg. msg) (\<lambda>tile x y w h. tile = ''tile part=0 tileposx=0 tileposy=0 ver=1'')
       [(7, \<lparr>X = 100, Y = 100, Width = 50, Height = 50\<rparr>)]
       ''tile part=0 tileposx=0 tileposy=0 ver=1''
   \<and> \<not> priority (\<lambda>msg. msg) (\<lambda>tile x y w h. tile = ''tile part=0 tileposx=0 tileposy=0 ver=1'')
       [(7, \<lparr>X = 100, Y = 100, Width = 50, Height = 50\<rparr>)]
       ''tile part=0 tileposx=3840 tileposy=0 ver=1''
   \<and> get (TileQueue_put_impl (\<lambda>msg. msg)
             (\<lambda>tile x y w h. tile = ''tile part=0 tileposx=0 tileposy=0 ver=1'')
             [(7, \<lparr>X = 100, Y = 100, Width = 50, Height = 50\<rparr>)]
             (TileQueue_put_impl (\<lambda>msg. msg)
                (\<lambda>tile x y w h. tile = ''tile part=0 tileposx=0 tileposy=0 ver=1'')
                [(7, \<lparr>X = 100, Y = 100, Width = 50, Height = 50\<rparr>)] []
                ''tile part=0 tileposx=3840 tileposy=0 ver=1'')
             ''tile part=0 tileposx=0 tileposy=0 ver=1'')
      = Some (''tile part=0 tileposx=0 tileposy=0 ver=1'',
              [''tile part=0 tileposx=3840 tileposy=0 ver=1''])"
  using priority_payload_goes_first [where parse = "\<lambda>msg. msg"
      and isect = "\<lambda>tile x y w h. tile = ''tile part=0 tileposx=0 tileposy=0 ver=1''"
      and cs = "[(7, \<lparr>X = 100, Y = 100, Width = 50, Height = 50\<rparr>)]"
      and msg = "''tile part=0 tileposx=0 tileposy=0 ver=1''" and queue = "[]"
      and ?T1.0 = "''tile part=0 tileposx=3840 tileposy=0 ver=1''"
      and ?T2.0 = "''tile part=0 tileposx=0 tileposy=0 ver=1''" and view = 7]
    priority_payload_goes_first [where parse = "\<lambda>msg. msg"
      and isect = "\<lambda>tile x y w h. tile = ''tile part=0 tileposx=0 tileposy=0 ver=1''"
      and cs = "[(7, \<lparr>X = 100, Y = 100, Width = 50, Height = 50\<rparr>)]"
      and msg = "''tile part=0 tileposx=3840 tileposy=0 ver=1''" and queue = "[]"
      and ?T1.0 = "''tile part=0 tileposx=3840 tileposy=0 ver=1''"
      and ?T2.0 = "''tile part=0 tileposx=0 tileposy=0 ver=1''" and view = 7]
  by (simp add: intersects_def dedupKey_def substr0_def)

text \<open>
  C5. \<open>reprioritize\<close> moves the first entry whose descriptor intersects the cursor to
  the front and leaves the other entries in their order; without such an entry the
  queue is unchanged. Applying it twice with the same cursor gives the same queue as
  applying it once.
\<close>

theorem reprioritize_moves_first_hit:
  "(find_if (intersects parse isect c) queue < length queue \<longrightarrow>
      intersects parse isect c (queue ! find_if (intersects parse isect c) queue)
      \<and> (\<forall>j < find_if (intersects parse isect c) queue. \<not> intersects parse isect c (queue ! j))
      \<and> reprioritize parse isect queue c =
          queue ! find_if (intersects parse isect c) queue
            # without (find_if (intersects parse isect c) queue) queue)
   \<and> (\<not> find_if (intersects parse isect c) queue < length queue \<longrightarrow>
      (\<forall>e \<in> set queue. \<not> intersects parse isect c e)
      \<and> reprioritize parse isect queue c = queue)
   \<and> reprioritize parse isect (reprioritize parse isect queue c) c
       = reprioritize parse isect queue c"
proof -
  let ?P = "intersects parse isect c"
  let ?i = "find_if ?P queue"
  have hit: "?P (queue ! ?i) \<and> (\<forall>j < ?i. \<not> ?P (queue ! j))
      \<and> reprioritize parse isect queue c = queue ! ?i # without ?i queue"
    if "?i < length queue"
    using that find_if_nth [OF that] find_if_least [of _ ?P queue]
    by (simp add: reprioritize_cases find_if_less)
  have miss: "(\<forall>e \<in> set queue. \<not> ?P e) \<and> reprioritize parse isect queue c = queue"
    if "\<not> ?i < length queue"
    using that by (simp add: reprioritize_cases find_if_less)
  have idem: "reprioritize parse isect (reprioritize parse isect queue c) c
       = reprioritize parse isect queue c"
  proof (cases "?i < length queue")
    case True
    let ?r = "queue ! ?i # without ?i queue"
    have r: "reprioritize parse isect queue c = ?r"
      using hit [OF True] by simp
    have "?P (queue ! ?i)"
      using hit [OF True] by simp
    then have "reprioritize parse isect ?r c = ?r"
      by (simp add: reprioritize_cases without_def)
    with r show ?thesis by simp
  next
    case False
    with miss show ?thesis by simp
  qed
  from hit miss idem show ?thesis
    by blast
qed

theorem reprioritize_moves_first_hit_witness:
  "reprioritize (\<lambda>msg. msg) (\<lambda>tile x y w h. tile = ''C'' \<or> tile = ''D'')
      [''A'', ''B'', ''C'', ''D''] \<lparr>X = 600, Y = 600, Width = 10, Height = 10\<rparr>
     = [''C'', ''A'', ''B'', ''D'']
   \<and> reprioritize (\<lambda>msg. msg) (\<lambda>tile x y w h. tile = ''C'' \<or> tile = ''D'')
      (reprioritize (\<lambda>msg. msg) (\<lambda>tile x y w h. tile = ''C'' \<or> tile = ''D'')
         [''A'', ''B'', ''C'', ''D''] \<lparr>X = 600, Y = 600, Width = 10, Height = 10\<rparr>)
      \<lparr>X = 600, Y = 600, Width = 10, Height = 10\<rparr>
     = [''C'', ''A'', ''B'', ''D'']
   \<and> reprioritize (\<lambda>msg. msg) (\<lambda>tile x y w h. False)
      [''A'', ''B'', ''C''] \<lparr>X = 600, Y = 600, Width = 10, Height = 10\<rparr>
     = [''A'', ''B'', ''C'']"
proof -
  note hit = reprioritize_moves_first_hit [where parse = "\<lambda>msg. msg"
      and isect = "\<lambda>tile x y w h. tile = ''C'' \<or> tile = ''D''"
      and queue = "[''A'', ''B'', ''C'', ''D'']"
      and c = "\<lparr>X = 600, Y = 600, Width = 10, Height = 10\<rparr>"]
  note miss = reprioritize_moves_first_hit [where parse = "\<lambda>msg. msg"
      and isect = "\<lambda>tile x y w h. False"
      and queue = "[''A'', ''B'', ''C'']"
      and c = "\<lparr>X = 600, Y = 600, Width = 10, Height = 10\<rparr>"]
  have once: "reprioritize (\<lambda>msg. msg) (\<lambda>tile x y w h. tile = ''C'' \<or> tile = ''D'')
      [''A'', ''B'', ''C'', ''D''] \<lparr>X = 600, Y = 600, Width = 10, Height = 10\<rparr>
     = [''C'', ''A'', ''B'', ''D'']"
    using hit by (simp add: intersects_def without_def)
  have twice: "reprioritize (\<lambda>msg. msg) (\<lambda>tile x y w h. tile = ''C'' \<or> tile = ''D'')
      (reprioritize (\<lambda>msg. msg) (\<lambda>tile x y w h. tile = ''C'' \<or> tile = ''D'')
         [''A'', ''B'', ''C'', ''D''] \<lparr>X = 600, Y = 600, Width = 10, Height = 10\<rparr>)
      \<lparr>X = 600, Y = 600, Width = 10, Height = 10\<rparr>
     = reprioritize (\<lambda>msg. msg) (\<lambda>tile x y w h. tile = ''C'' \<or> tile = ''D'')
         [''A'', ''B'', ''C'', ''D''] \<lparr>X = 600, Y = 600, Width = 10, Height = 10\<rparr>"
    using hit by (rule conjunct2 [THEN conjunct2])
  have none: "reprioritize (\<lambda>msg. msg) (\<lambda>tile x y w h. False)
      [''A'', ''B'', ''C''] \<lparr>X = 600, Y = 600, Width = 10, Height = 10\<rparr>
     = [''A'', ''B'', ''C'']"
    using miss by (simp add: intersects_def)
  from once twice none show ?thesis
    by (simp only: simp_thms)
qed

section \<open>The timeout of the poll\<close>

lemma int32_id: "- (2 ^ 31) \<le> x \<Longrightarrow> x < 2 ^ 31 \<Longrightarrow> int32 x = x"
  by (simp add: int32_def)

lemma int64_id: "- (2 ^ 63) \<le> x \<Longrightarrow> x < 2 ^ 63 \<Longrightarrow> int64 x = x"
  by (simp add: int64_def)

lemma cdiv_ms: "0 \<le> t \<Longrightarrow> cdiv (t * 1000) 1000 = t"
  by (cases "t = 0") (simp_all add: cdiv_def sgn_if)

text \<open>
  C6 fails as stated: the difference of the two timestamps is a number of microseconds,
  and its quotient by 1000 is a number of milliseconds. The polling thread calls
  \<open>poll(5000)\<close>, and the value handed to the multiplexer is 5000.
\<close>

theorem poll_timeout_is_milliseconds_counterexample:
  "poll_timeout_arg [] 1487000000000000 5000 = 5000"
  by (simp add: poll_timeout_arg_def setupPollFds_timeout_def Timestamp_add_def
      Timestamp_diff_def Timespan_def int32_def int64_def cdiv_def)

text \<open>
  C6, amended. When no polled socket shortens the deadline, the value handed to the
  multiplexer is \<open>timeoutMaxMs\<close> itself, a number of milliseconds, for every
  \<open>timeoutMaxMs\<close> from 0 to 2147483 (the values whose product with 1000 is an
  \<open>int\<close>) and every time \<open>now\<close> of the clock from 0 to \<open>2 ^ 62\<close> microseconds.
\<close>

theorem poll_timeout_is_milliseconds:
  assumes "0 \<le> timeoutMaxMs" and "timeoutMaxMs \<le> 2147483"
    and "0 \<le> now" and "now < 2 ^ 62"
    and "\<forall>upd \<in> set updateTimeouts. upd = Socket_updateTimeout"
  shows "poll_timeout_arg updateTimeouts now timeoutMaxMs = timeoutMaxMs"
proof -
  have upd: "setupPollFds_timeout updateTimeouts t = t" for t
    using assms(5) unfolding setupPollFds_timeout_def
    by (induction updateTimeouts arbitrary: t) (simp_all add: Socket_updateTimeout_def)
  have us: "int32 (timeoutMaxMs * 1000) = timeoutMaxMs * 1000"
    using assms(1,2) by (intro int32_id) simp_all
  have span: "Timespan 0 (timeoutMaxMs * 1000) = timeoutMaxMs * 1000"
    using assms(1,2) by (simp add: Timespan_def int64_id)
  have dl: "Timestamp_add now (timeoutMaxMs * 1000) = now + timeoutMaxMs * 1000"
    using assms(1-4) unfolding Timestamp_add_def by (intro int64_id) simp_all
  have diff: "Timestamp_diff (now + timeoutMaxMs * 1000) now = timeoutMaxMs * 1000"
    using assms(1,2) by (simp add: Timestamp_diff_def int64_id)
  have res: "int32 timeoutMaxMs = timeoutMaxMs"
    using assms(1,2) by (intro int32_id) simp_all
  show ?thesis
    using assms(1)
    by (simp add: poll_timeout_arg_def upd us span dl diff cdiv_ms res)
qed

theorem poll_timeout_is_milliseconds_witness:
  "(0::int) \<le> 5000 \<and> (5000::int) \<le> 2147483 \<and> (0::int) \<le> 1487000000000000
   \<and> (1487000000000000::int) < 2 ^ 62
   \<and> poll_timeout_arg [Socket_updateTimeout, Socket_updateTimeout] 1487000000000000 5000 = 5000"
  using poll_timeout_is_milliseconds [of 5000 1487000000000000
      "[Socket_updateTimeout, Socket_updateTimeout]"]
  by simp

section \<open>The events a stream socket polls for\<close>

text \<open>
  C9. The mask of \<open>getPollEvents\<close> always contains \<open>POLLIN\<close>; it contains \<open>POLLOUT\<close>
  exactly when the output buffer is not empty or the handler has queued writes.
\<close>

theorem getPollEvents_mask:
  "getPollEvents H sock AND POLLIN = POLLIN
   \<and> (getPollEvents H sock AND POLLOUT = POLLOUT \<longleftrightarrow>
        outBuffer (conn sock) \<noteq> [] \<or> hasQueuedWrites H (conn sock))
   \<and> (getPollEvents H sock = POLLIN \<or> getPollEvents H sock = POLLIN OR POLLOUT)"
  by (simp add: getPollEvents_def POLLIN_def POLLOUT_def)

theorem getPollEvents_mask_witness:
  "getPollEvents
     \<lparr>handleIncomingMessage = (\<lambda>c. c), hasQueuedWrites = (\<lambda>c. handler c),
      performWrites = (\<lambda>c. c), onDisconnect = (\<lambda>c. c)\<rparr>
     \<lparr>conn = \<lparr>handler = False, inBuffer = [], outBuffer = ''x'', errno = 0\<rparr>, closed = False\<rparr>
     = 5
   \<and> getPollEvents
     \<lparr>handleIncomingMessage = (\<lambda>c. c), hasQueuedWrites = (\<lambda>c. handler c),
      performWrites = (\<lambda>c. c), onDisconnect = (\<lambda>c. c)\<rparr>
     \<lparr>conn = \<lparr>handler = False, inBuffer = [], outBuffer = [], errno = 0\<rparr>, closed = False\<rparr>
     = 1"
  using getPollEvents_mask [of
     "\<lparr>handleIncomingMessage = (\<lambda>c. c), hasQueuedWrites = (\<lambda>c. handler c),
      performWrites = (\<lambda>c. c), onDisconnect = (\<lambda>c. c)\<rparr>"
     "\<lparr>conn = \<lparr>handler = False, inBuffer = [], outBuffer = ''x'', errno = 0\<rparr>, closed = False\<rparr>"]
   getPollEvents_mask [of
     "\<lparr>handleIncomingMessage = (\<lambda>c. c), hasQueuedWrites = (\<lambda>c. handler c),
      performWrites = (\<lambda>c. c), onDisconnect = (\<lambda>c. c)\<rparr>"
     "\<lparr>conn = \<lparr>handler = False, inBuffer = [], outBuffer = [], errno = 0\<rparr>, closed = False\<rparr>"]
  by (simp add: getPollEvents_def POLLIN_def POLLOUT_def)

section \<open>The loop that hands the input to the handler\<close>

lemma oldSize_before_shift:
  "oldSize_before him (length (inBuffer c)) (him c) k = oldSize_before him oldSize c (Suc k)"
  by (cases k) (simp_all add: oldSize_before_def funpow_swap1)

lemma loop_test_shift:
  "loop_test him (length (inBuffer c)) (him c) k = loop_test him oldSize c (Suc k)"
  using oldSize_before_shift [of him c k oldSize]
  by (simp add: loop_test_def funpow_swap1)

lemma loop_test_0:
  "loop_test him oldSize c 0 \<longleftrightarrow> inBuffer c \<noteq> [] \<and> oldSize \<noteq> length (inBuffer c)"
  by (simp add: loop_test_def oldSize_before_def)

lemma consume_loop_unroll:
  "(\<forall>k < m. loop_test him oldSize c k) \<Longrightarrow>
     consume_loop him oldSize n c =
     consume_loop him (oldSize_before him oldSize c m) (n + m) ((him ^^ m) c)"
proof (induction m arbitrary: oldSize n c)
  case 0
  show ?case by (simp add: oldSize_before_def)
next
  case (Suc m)
  from Suc.prems have t0: "loop_test him oldSize c 0" by simp
  have rest: "\<forall>k < m. loop_test him (length (inBuffer c)) (him c) k"
    using Suc.prems by (simp add: loop_test_shift [of him c _ oldSize])
  have "consume_loop him oldSize n c = consume_loop him (length (inBuffer c)) (Suc n) (him c)"
    using t0 by (subst consume_loop.simps) (simp add: loop_test_0)
  also have "\<dots> = consume_loop him (oldSize_before him (length (inBuffer c)) (him c) m)
      (Suc n + m) ((him ^^ m) (him c))"
    using rest by (rule Suc.IH)
  finally show ?case
    by (simp add: oldSize_before_shift [of him c m oldSize] funpow_swap1)
qed

lemma consume_loop_stops:
  assumes "\<forall>k < m. loop_test him oldSize c k" and "\<not> loop_test him oldSize c m"
  shows "consume_loop him oldSize n c = Some (n + m, (him ^^ m) c)"
proof -
  have nt: "(inBuffer ((him ^^ m) c) \<noteq> []
      \<and> oldSize_before him oldSize c m \<noteq> length (inBuffer ((him ^^ m) c))) = False"
    using assms(2) by (simp add: loop_test_def)
  have "consume_loop him (oldSize_before him oldSize c m) (n + m) ((him ^^ m) c)
      = Some (n + m, (him ^^ m) c)"
    by (subst consume_loop.simps) (simp only: nt if_False)
  with consume_loop_unroll [OF assms(1)] show ?thesis by simp
qed

lemma consume_loop_Some:
  assumes "consume_loop him oldSize n c = Some y"
  shows "\<exists>m. (\<forall>k < m. loop_test him oldSize c k) \<and> \<not> loop_test him oldSize c m
       \<and> y = (n + m, (him ^^ m) c)"
proof -
  let ?P = "\<lambda>him oldSize n c y.
     \<exists>m. (\<forall>k < m. loop_test him oldSize c k) \<and> \<not> loop_test him oldSize c m
       \<and> y = (n + m, (him ^^ m) c)"
  show ?thesis
  proof (rule consume_loop.raw_induct [where P = ?P, OF _ assms])
    fix f him oldSize n and c :: "'a conn" and y
    assume IH: "\<And>h old' n' c' y'. f h old' n' c' = Some y' \<Longrightarrow> ?P h old' n' c' y'"
      and step: "(if inBuffer c \<noteq> [] \<and> oldSize \<noteq> length (inBuffer c)
                  then f him (length (inBuffer c)) (Suc n) (him c)
                  else Some (n, c)) = Some y"
    show "?P him oldSize n c y"
    proof (cases "loop_test him oldSize c 0")
      case False
      with step have "y = (n, c)" by (simp add: loop_test_0 split: if_splits)
      with False show ?thesis by (intro exI [of _ 0]) simp
    next
      case True
      with step have "f him (length (inBuffer c)) (Suc n) (him c) = Some y"
        by (simp add: loop_test_0 split: if_splits)
      from IH [OF this] obtain m where
        m: "\<forall>k < m. loop_test him (length (inBuffer c)) (him c) k"
          "\<not> loop_test him (length (inBuffer c)) (him c) m"
          "y = (Suc n + m, (him ^^ m) (him c))"
        by blast
      have "\<forall>k < Suc m. loop_test him oldSize c k"
      proof (intro allI impI)
        fix k assume "k < Suc m"
        then show "loop_test him oldSize c k"
          using True m(1) by (cases k) (simp_all add: loop_test_shift [of him c _ oldSize])
      qed
      moreover have "\<not> loop_test him oldSize c (Suc m)"
        using m(2) by (simp add: loop_test_shift [of him c m oldSize])
      moreover have "y = (n + Suc m, (him ^^ Suc m) c)"
        using m(3) by (simp add: funpow_swap1)
      ultimately show ?thesis by blast
    qed
  qed
qed

lemma consume_loop_iff:
  "consume_loop him oldSize n c = Some (n', c') \<longleftrightarrow>
     (\<exists>m. (\<forall>k < m. loop_test him oldSize c k) \<and> \<not> loop_test him oldSize c m
        \<and> n' = n + m \<and> c' = (him ^^ m) c)"
  using consume_loop_Some [of him oldSize n c "(n', c')"] consume_loop_stops [of _ him oldSize c n]
  by auto

lemma consume_loop_None:
  "consume_loop him oldSize n c = None \<longleftrightarrow> (\<forall>k. loop_test him oldSize c k)"
proof
  assume none: "consume_loop him oldSize n c = None"
  show "\<forall>k. loop_test him oldSize c k"
  proof (rule ccontr)
    assume "\<not> (\<forall>k. loop_test him oldSize c k)"
    then have ex: "\<exists>k. \<not> loop_test him oldSize c k" by simp
    define m where "m = (LEAST k. \<not> loop_test him oldSize c k)"
    have "\<not> loop_test him oldSize c m"
      unfolding m_def using ex by (rule LeastI_ex)
    moreover have "\<forall>k < m. loop_test him oldSize c k"
      unfolding m_def using not_less_Least by blast
    ultimately have "consume_loop him oldSize n c = Some (n + m, (him ^^ m) c)"
      by (rule consume_loop_stops [rotated])
    with none show False by simp
  qed
next
  assume all: "\<forall>k. loop_test him oldSize c k"
  show "consume_loop him oldSize n c = None"
  proof (cases "consume_loop him oldSize n c")
    case None
    then show ?thesis .
  next
    case (Some y)
    from consume_loop_Some [OF this] all show ?thesis by blast
  qed
qed

lemma draining_terminates:
  assumes drain: "\<forall>c. length (inBuffer (him c)) \<le> length (inBuffer c)"
  shows "\<exists>n c'. consume_loop him oldSize n0 c = Some (n, c')"
proof (rule ccontr)
  assume "\<not> (\<exists>n c'. consume_loop him oldSize n0 c = Some (n, c'))"
  then have "consume_loop him oldSize n0 c = None"
    by (cases "consume_loop him oldSize n0 c") auto
  then have all: "\<forall>k. loop_test him oldSize c k"
    by (simp add: consume_loop_None)
  have dec: "length (inBuffer ((him ^^ Suc k) c)) < length (inBuffer ((him ^^ k) c))" for k
  proof -
    have "loop_test him oldSize c (Suc k)" using all by simp
    then have "length (inBuffer ((him ^^ k) c)) \<noteq> length (inBuffer ((him ^^ Suc k) c))"
      by (simp add: loop_test_def oldSize_before_def)
    moreover have "length (inBuffer ((him ^^ Suc k) c)) \<le> length (inBuffer ((him ^^ k) c))"
      using drain by simp
    ultimately show ?thesis by simp
  qed
  have "length (inBuffer ((him ^^ k) c)) + k \<le> length (inBuffer c)" for k
  proof (induction k)
    case 0
    show ?case by simp
  next
    case (Suc k)
    with dec [of k] show ?case by simp
  qed
  from this [of "Suc (length (inBuffer c))"] show False by simp
qed

lemma handlePoll_incoming_calls:
  assumes "handlePoll H env sock = Some (res, calls, sock')"
  shows "\<exists>c2. consume_loop (handleIncomingMessage H) 0 0
                (snd (readIncomingData (reads env) (conn sock)))
              = Some (length (filter (\<lambda>e. e = HandleIncomingMessage) calls), c2)"
  using assms
  by (auto simp: handlePoll_def Let_def split: option.splits if_splits)

lemma shrinking_test_iff:
  fixes him :: "'h conn \<Rightarrow> 'h conn"
  assumes drain: "\<forall>d. length (inBuffer (him d)) \<le> length (inBuffer d)"
  shows "loop_test him 0 c k \<longleftrightarrow> shrinking_test him c k"
proof (cases k)
  case 0
  then show ?thesis by (auto simp: loop_test_0 shrinking_test_def)
next
  case (Suc j)
  have "length (inBuffer ((him ^^ Suc j) c)) \<le> length (inBuffer ((him ^^ j) c))"
    using drain by simp
  then show ?thesis
    unfolding Suc by (auto simp: loop_test_def oldSize_before_def shrinking_test_def)
qed

lemma handlePoll_returns:
  assumes "\<forall>d. length (inBuffer (handleIncomingMessage H d)) \<le> length (inBuffer d)"
  shows "\<exists>r. handlePoll H env sock = Some r"
proof -
  obtain n c2 where "consume_loop (handleIncomingMessage H) 0 0
      (snd (readIncomingData (reads env) (conn sock))) = Some (n, c2)"
    using draining_terminates [OF assms] by blast
  then show ?thesis
    by (simp add: handlePoll_def Let_def)
qed

text \<open>
  C8. With a handler that never makes the input buffer longer (it consumes input or
  returns), \<open>handleIncomingMessage\<close> is called again exactly while the input buffer is
  not empty and, after the first call, shrank during the previous call: the number of
  calls is the least \<open>n\<close> at which this fails. The loop ends. A call that leaves the
  size of the buffer unchanged is the last one. \<open>handlePoll\<close> returns, and the calls
  of \<open>handleIncomingMessage\<close> it reports are those of this loop.
\<close>

theorem incoming_loop_runs_while_buffer_shrinks:
  fixes him :: "'h conn \<Rightarrow> 'h conn"
  assumes drain: "\<forall>d. length (inBuffer (him d)) \<le> length (inBuffer d)"
  shows "(consume_loop him 0 0 c = Some (n, c') \<longleftrightarrow>
        (\<forall>k < n. shrinking_test him c k) \<and> \<not> shrinking_test him c n \<and> c' = (him ^^ n) c)
   \<and> (\<exists>m. consume_loop him 0 0 c = Some (m, (him ^^ m) c))
   \<and> ((\<forall>j \<le> k. shrinking_test him c j)
        \<and> length (inBuffer ((him ^^ Suc k) c)) = length (inBuffer ((him ^^ k) c)) \<longrightarrow>
        consume_loop him 0 0 c = Some (Suc k, (him ^^ Suc k) c))
   \<and> (handleIncomingMessage H = him \<longrightarrow>
        (\<exists>res calls sock' c2.
           handlePoll H env sock = Some (res, calls, sock')
           \<and> consume_loop him 0 0 (snd (readIncomingData (reads env) (conn sock)))
              = Some (length (filter (\<lambda>e. e = HandleIncomingMessage) calls), c2)))"
proof -
  note st = shrinking_test_iff [OF drain, of c, symmetric]
  have a: "consume_loop him 0 0 c = Some (n, c') \<longleftrightarrow>
        (\<forall>k < n. shrinking_test him c k) \<and> \<not> shrinking_test him c n \<and> c' = (him ^^ n) c"
    unfolding st by (auto simp: consume_loop_iff)
  have b: "\<exists>m. consume_loop him 0 0 c = Some (m, (him ^^ m) c)"
  proof -
    obtain m d where "consume_loop him 0 0 c = Some (m, d)"
      using draining_terminates [OF drain, of 0 0 c] by blast
    then show ?thesis
      by (auto simp: consume_loop_iff)
  qed
  have d: "consume_loop him 0 0 c = Some (Suc k, (him ^^ Suc k) c)"
    if "\<forall>j \<le> k. shrinking_test him c j"
      and "length (inBuffer ((him ^^ Suc k) c)) = length (inBuffer ((him ^^ k) c))"
  proof -
    have "\<forall>j < Suc k. loop_test him 0 c j"
      using that(1) by (simp add: less_Suc_eq_le st)
    moreover have "\<not> loop_test him 0 c (Suc k)"
      using that(2) by (simp add: loop_test_def oldSize_before_def)
    ultimately show ?thesis
      using consume_loop_stops [of "Suc k" him 0 c 0] by simp
  qed
  have f: "\<exists>res calls sock' c2.
           handlePoll H env sock = Some (res, calls, sock')
           \<and> consume_loop him 0 0 (snd (readIncomingData (reads env) (conn sock)))
              = Some (length (filter (\<lambda>e. e = HandleIncomingMessage) calls), c2)"
    if h: "handleIncomingMessage H = him"
  proof -
    have "\<forall>d. length (inBuffer (handleIncomingMessage H d)) \<le> length (inBuffer d)"
      using drain h by simp
    from handlePoll_returns [OF this, of env sock]
    obtain res calls sock' where hp: "handlePoll H env sock = Some (res, calls, sock')"
      by (metis prod_cases3)
    from handlePoll_incoming_calls [OF hp] h hp show ?thesis
      by auto
  qed
  from a b d f show ?thesis
    by blast
qed

theorem incoming_loop_runs_while_buffer_shrinks_witness:
  "length (inBuffer (handleIncomingMessage stalled_handler
        \<lparr>handler = (), inBuffer = ''ab'', outBuffer = [], errno = 0\<rparr>)) \<le> 2
   \<and> shrinking_test (handleIncomingMessage stalled_handler)
        \<lparr>handler = (), inBuffer = ''ab'', outBuffer = [], errno = 0\<rparr> 0
   \<and> consume_loop (handleIncomingMessage stalled_handler) 0 0
      \<lparr>handler = (), inBuffer = ''ab'', outBuffer = [], errno = 0\<rparr>
     = Some (1, \<lparr>handler = (), inBuffer = ''ab'', outBuffer = [], errno = 0\<rparr>)
   \<and> consume_loop (handleIncomingMessage draining_handler) 0 0
      \<lparr>handler = (), inBuffer = ''GET /'', outBuffer = [], errno = 0\<rparr>
     = Some (1, \<lparr>handler = (), inBuffer = [], outBuffer = [], errno = 0\<rparr>)"
proof -
  let ?s = "handleIncomingMessage stalled_handler"
  let ?ab = "\<lparr>handler = (), inBuffer = ''ab'', outBuffer = [], errno = 0\<rparr>"
  let ?h = "handleIncomingMessage draining_handler"
  let ?get = "\<lparr>handler = (), inBuffer = ''GET /'', outBuffer = [], errno = 0\<rparr>"
  let ?none = "\<lparr>handler = (), inBuffer = [], outBuffer = [], errno = 0\<rparr>"
  have stall: "\<forall>d. length (inBuffer (?s d)) \<le> length (inBuffer d)"
    by (simp add: stalled_handler_def)
  have t0: "shrinking_test ?s ?ab 0"
    by (simp add: shrinking_test_def)
  then have all: "\<forall>j \<le> 0. shrinking_test ?s ?ab j"
    by simp
  have same: "length (inBuffer ((?s ^^ Suc 0) ?ab)) = length (inBuffer ((?s ^^ 0) ?ab))"
    by (simp add: stalled_handler_def)
  have "consume_loop ?s 0 0 ?ab = Some (Suc 0, (?s ^^ Suc 0) ?ab)"
    using incoming_loop_runs_while_buffer_shrinks [OF stall, where c = ?ab and k = 0]
      all same by blast
  then have one: "consume_loop ?s 0 0 ?ab = Some (1, ?ab)"
    by (simp add: stalled_handler_def)
  have drain: "\<forall>d. length (inBuffer (?h d)) \<le> length (inBuffer d)"
    by (simp add: draining_handler_def)
  have g0: "\<forall>k < 1. shrinking_test ?h ?get k"
    by (simp add: shrinking_test_def)
  have g1: "\<not> shrinking_test ?h ?get 1"
    by (simp add: shrinking_test_def draining_handler_def)
  have g2: "?none = (?h ^^ 1) ?get"
    by (simp add: draining_handler_def)
  have two: "consume_loop ?h 0 0 ?get = Some (1, ?none)"
    using incoming_loop_runs_while_buffer_shrinks [OF drain, where c = ?get and n = 1
        and c' = ?none] g0 g1 g2
    by blast
  have "length (inBuffer (?s ?ab)) \<le> 2"
    by (simp add: stalled_handler_def)
  with t0 one two show ?thesis
    by (simp only: simp_thms)
qed

section \<open>The calls of the handler over the life of a socket\<close>

lemma handlePoll_calls:
  assumes "handlePoll H env sock = Some (res, calls, sock')"
  shows "(closed sock' \<and> \<not> closed sock \<longrightarrow>
            (\<exists>pre. calls = pre @ [OnDisconnect True] \<and> (\<forall>e \<in> set pre. \<not> is_onDisconnect e)))
       \<and> (\<not> closed sock' \<longrightarrow> \<not> closed sock \<and> (\<forall>e \<in> set calls. \<not> is_onDisconnect e))
       \<and> (closed sock \<longrightarrow> closed sock')
       \<and> (res = SOCKET_CLOSED \<longleftrightarrow> closed sock')
       \<and> (\<forall>flag. OnDisconnect flag \<in> set calls \<longrightarrow>
            flag \<and> closed sock'
            \<and> (\<exists>pre. calls = pre @ [OnDisconnect True] \<and> (\<forall>e \<in> set pre. \<not> is_onDisconnect e)))
       \<and> (events env AND (POLLHUP OR POLLERR OR POLLNVAL) \<noteq> 0
            \<or> \<not> fst (readIncomingData (reads env) (conn sock)) \<longrightarrow>
            closed sock' \<and> res = SOCKET_CLOSED \<and> last calls = OnDisconnect True)"
  using assms
  by (auto simp: handlePoll_def Let_def is_onDisconnect_def split: option.splits if_splits)

lemma poll_until_closed_calls:
  assumes "poll_until_closed H envs sock = Some (calls, sock')" and "\<not> closed sock"
  shows "(closed sock' \<longrightarrow>
            (\<exists>pre. calls = pre @ [OnDisconnect True] \<and> (\<forall>e \<in> set pre. \<not> is_onDisconnect e)))
       \<and> (\<not> closed sock' \<longrightarrow> (\<forall>e \<in> set calls. \<not> is_onDisconnect e))"
  using assms
proof (induction envs arbitrary: sock calls)
  case Nil
  then show ?case by simp
next
  case (Cons env envs)
  from Cons.prems(1) obtain res calls1 sock1 where
    hp: "handlePoll H env sock = Some (res, calls1, sock1)"
    by (auto split: option.splits)
  note facts = handlePoll_calls [OF hp]
  show ?case
  proof (cases "res = SOCKET_CLOSED")
    case True
    with Cons.prems hp facts show ?thesis by auto
  next
    case False
    with facts have open1: "\<not> closed sock1" and no: "\<forall>e \<in> set calls1. \<not> is_onDisconnect e"
      by auto
    from Cons.prems(1) hp False obtain calls2 where
      rest: "poll_until_closed H envs sock1 = Some (calls2, sock')" and
      calls: "calls = calls1 @ calls2"
      by (auto split: option.splits)
    from Cons.IH [OF rest open1] no calls show ?thesis
      by auto
  qed
qed

lemma poll_until_closed_returns:
  assumes "\<forall>d. length (inBuffer (handleIncomingMessage H d)) \<le> length (inBuffer d)"
  shows "\<exists>r. poll_until_closed H envs sock = Some r"
proof (induction envs arbitrary: sock)
  case Nil
  show ?case by simp
next
  case (Cons env envs)
  obtain res calls sock' where hp: "handlePoll H env sock = Some (res, calls, sock')"
    using handlePoll_returns [OF assms, of env sock] by (metis prod_cases3)
  obtain r where "poll_until_closed H envs sock' = Some r"
    using Cons.IH by blast
  with hp show ?case by simp
qed

text \<open>
  C7. On a socket that is not closed, as the constructor leaves it, across any
  sequence of \<open>handlePoll\<close> calls that \<open>SocketPoll::poll\<close> makes on it, followed by the
  destructor, \<open>onDisconnect\<close> is called exactly once and is the last call of the
  handler. Whenever \<open>handlePoll\<close> calls \<open>onDisconnect\<close>, \<open>_closed\<close> is already set at the
  call, the call is the last one of that \<open>handlePoll\<close>, and \<open>handlePoll\<close> returns
  \<open>SOCKET_CLOSED\<close>; it does so on a hang-up, an error or an invalid descriptor and when
  the peer has closed. \<open>_closed\<close> is never reset. The destructor calls \<open>onDisconnect\<close>
  only while the flag is still false. With a handler that never makes the input
  buffer longer every such sequence runs to its end.
\<close>

theorem onDisconnect_exactly_once:
  assumes "\<not> closed sock"
  shows "(lifetime H envs sock = Some calls \<longrightarrow>
            length (filter is_onDisconnect calls) = 1
            \<and> is_onDisconnect (last calls)
            \<and> (\<exists>pre flag. calls = pre @ [OnDisconnect flag]
                  \<and> (\<forall>e \<in> set pre. \<not> is_onDisconnect e)))
       \<and> (handlePoll H env sock0 = Some (res, calls1, sock1) \<longrightarrow>
            (closed sock0 \<longrightarrow> closed sock1)
            \<and> (res = SOCKET_CLOSED \<longleftrightarrow> closed sock1)
            \<and> (\<forall>flag. OnDisconnect flag \<in> set calls1 \<longrightarrow>
                 flag \<and> closed sock1
                 \<and> (\<exists>pre. calls1 = pre @ [OnDisconnect True]
                       \<and> (\<forall>e \<in> set pre. \<not> is_onDisconnect e)))
            \<and> (events env AND (POLLHUP OR POLLERR OR POLLNVAL) \<noteq> 0
                 \<or> \<not> fst (readIncomingData (reads env) (conn sock0)) \<longrightarrow>
                 closed sock1 \<and> res = SOCKET_CLOSED \<and> last calls1 = OnDisconnect True))
       \<and> StreamSocket_dtor sock0 = (if closed sock0 then [] else [OnDisconnect False])
       \<and> ((\<forall>d. length (inBuffer (handleIncomingMessage H d)) \<le> length (inBuffer d)) \<longrightarrow>
            (\<exists>calls'. lifetime H envs sock = Some calls'))"
proof -
  have once: "length (filter is_onDisconnect calls) = 1
            \<and> is_onDisconnect (last calls)
            \<and> (\<exists>pre flag. calls = pre @ [OnDisconnect flag]
                  \<and> (\<forall>e \<in> set pre. \<not> is_onDisconnect e))"
    if "lifetime H envs sock = Some calls"
  proof -
    from that obtain calls0 sock' where
      run: "poll_until_closed H envs sock = Some (calls0, sock')" and
      calls: "calls = calls0 @ StreamSocket_dtor sock'"
      by (auto simp: lifetime_def)
    note facts = poll_until_closed_calls [OF run assms]
    have "\<exists>pre flag. calls = pre @ [OnDisconnect flag] \<and> (\<forall>e \<in> set pre. \<not> is_onDisconnect e)"
    proof (cases "closed sock'")
      case True
      with facts calls show ?thesis by (auto simp: StreamSocket_dtor_def)
    next
      case False
      with facts calls show ?thesis by (auto simp: StreamSocket_dtor_def)
    qed
    then obtain pre flag where pre: "calls = pre @ [OnDisconnect flag]"
        "\<forall>e \<in> set pre. \<not> is_onDisconnect e"
      by blast
    then have "filter is_onDisconnect pre = []"
      by (auto simp: filter_empty_conv)
    with pre show ?thesis by (auto simp: is_onDisconnect_def)
  qed
  have flag: "(closed sock0 \<longrightarrow> closed sock1)
            \<and> (res = SOCKET_CLOSED \<longleftrightarrow> closed sock1)
            \<and> (\<forall>flag. OnDisconnect flag \<in> set calls1 \<longrightarrow>
                 flag \<and> closed sock1
                 \<and> (\<exists>pre. calls1 = pre @ [OnDisconnect True]
                       \<and> (\<forall>e \<in> set pre. \<not> is_onDisconnect e)))
            \<and> (events env AND (POLLHUP OR POLLERR OR POLLNVAL) \<noteq> 0
                 \<or> \<not> fst (readIncomingData (reads env) (conn sock0)) \<longrightarrow>
                 closed sock1 \<and> res = SOCKET_CLOSED \<and> last calls1 = OnDisconnect True)"
    if "handlePoll H env sock0 = Some (res, calls1, sock1)"
    using handlePoll_calls [OF that] by blast
  have dtor: "StreamSocket_dtor sock0 = (if closed sock0 then [] else [OnDisconnect False])"
    by (simp add: StreamSocket_dtor_def)
  have total: "\<exists>calls'. lifetime H envs sock = Some calls'"
    if "\<forall>d. length (inBuffer (handleIncomingMessage H d)) \<le> length (inBuffer d)"
    using poll_until_closed_returns [OF that, of envs sock]
    by (auto simp: lifetime_def)
  from once flag dtor total show ?thesis
    by blast
qed

theorem onDisconnect_exactly_once_witness:
  "\<not> closed (StreamSocket_ctor () 0)
   \<and> lifetime draining_handler
     [\<lparr>events = POLLIN, reads = [ReadData ''x''], lock_free = True, writes = []\<rparr>,
      \<lparr>events = POLLHUP, reads = [], lock_free = True, writes = []\<rparr>,
      \<lparr>events = POLLIN, reads = [ReadData ''y''], lock_free = True, writes = []\<rparr>]
     (StreamSocket_ctor () 0)
     = Some [HandleIncomingMessage, OnDisconnect True]
   \<and> lifetime draining_handler
     [\<lparr>events = POLLIN, reads = [ReadData ''x''], lock_free = True, writes = []\<rparr>]
     (StreamSocket_ctor () 0)
     = Some [HandleIncomingMessage, OnDisconnect False]
   \<and> lifetime draining_handler [] (StreamSocket_ctor () 0) = Some [OnDisconnect False]
   \<and> length (filter is_onDisconnect [HandleIncomingMessage, OnDisconnect True]) = 1"
proof -
  let ?envs = "[\<lparr>events = POLLIN, reads = [ReadData ''x''], lock_free = True, writes = []\<rparr>,
      \<lparr>events = POLLHUP, reads = [], lock_free = True, writes = []\<rparr>,
      \<lparr>events = POLLIN, reads = [ReadData ''y''], lock_free = True, writes = []\<rparr>]"
  have fresh: "\<not> closed (StreamSocket_ctor () 0)"
    by (simp add: StreamSocket_ctor_def)
  have run: "lifetime draining_handler ?envs (StreamSocket_ctor () 0)
      = Some [HandleIncomingMessage, OnDisconnect True]"
    by (simp add: lifetime_def handlePoll_def Let_def consume_loop.simps
      draining_handler_def StreamSocket_ctor_def StreamSocket_dtor_def
      POLLIN_def POLLOUT_def POLLHUP_def POLLERR_def POLLNVAL_def EAGAIN_def EPIPE_def)
  have short: "lifetime draining_handler
     [\<lparr>events = POLLIN, reads = [ReadData ''x''], lock_free = True, writes = []\<rparr>]
     (StreamSocket_ctor () 0)
     = Some [HandleIncomingMessage, OnDisconnect False]"
    by (simp add: lifetime_def handlePoll_def Let_def consume_loop.simps
      draining_handler_def StreamSocket_ctor_def StreamSocket_dtor_def
      POLLIN_def POLLOUT_def POLLHUP_def POLLERR_def POLLNVAL_def EAGAIN_def EPIPE_def)
  have none: "lifetime draining_handler [] (StreamSocket_ctor () 0) = Some [OnDisconnect False]"
    by (simp add: lifetime_def StreamSocket_ctor_def StreamSocket_dtor_def)
  have "length (filter is_onDisconnect [HandleIncomingMessage, OnDisconnect True]) = 1"
    using onDisconnect_exactly_once [OF fresh, where H = draining_handler and envs = ?envs
        and calls = "[HandleIncomingMessage, OnDisconnect True]"] run
    by blast
  with fresh run short none show ?thesis
    by (simp only: simp_thms)
qed

end
